theory Spec2Isabelle
  imports Complex_Main "HOL-Library.Multiset"
begin

section \<open>Python exceptions as values\<close>

text \<open>
  A raised exception is a value: the name of its class and its message.  Every function
  of the model that can raise returns \<open>pyexc + 'a\<close>, with \<open>Inl\<close> for the exception.
\<close>

datatype pyexc = PyExc (exc_class: string) (exc_msg: string)

text \<open>Sequencing: an exception raised by the first computation ends the whole.\<close>

definition bind_exc :: "pyexc + 'a \<Rightarrow> ('a \<Rightarrow> pyexc + 'b) \<Rightarrow> pyexc + 'b" where
  "bind_exc m f = (case m of Inl e \<Rightarrow> Inl e | Inr a \<Rightarrow> f a)"

section \<open>speaker\_encoder/data\_objects/random\_cycler.py\<close>

text \<open>
  The class \<open>RandomCycler\<close> has two attributes, \<open>all_items\<close> and \<open>next_items\<close>.
  The constructor raises a plain \<open>Exception\<close> on an empty source.
\<close>

record 'a RandomCycler =
  all_items :: "'a list"
  next_items :: "'a list"

definition RandomCycler_init :: "'a list \<Rightarrow> pyexc + 'a RandomCycler" where
  "RandomCycler_init source =
     (if length source = 0
      then Inl (PyExc ''Exception'' ''RandomCycler was provided an empty collection.'')
      else Inr \<lparr>all_items = source, next_items = []\<rparr>)"

text \<open>
  \<open>shuffle = lambda l: random.sample(l, len(l))\<close> draws a random permutation of \<open>l\<close>.
  The random source is a parameter \<open>shuffle :: nat \<Rightarrow> 'a list \<Rightarrow> 'a list\<close>: \<open>shuffle k l\<close>
  is what the \<open>k\<close>-th call of \<open>shuffle\<close> returns on \<open>l\<close>.  The number of calls made so far
  is threaded through with the object's state.  A random source is admissible when
  every call returns a permutation of its argument.
\<close>

type_synonym 'a shuffle = "nat \<Rightarrow> 'a list \<Rightarrow> 'a list"

definition valid_shuffle :: "'a shuffle \<Rightarrow> bool" where
  "valid_shuffle shuffle = (\<forall>k l. mset (shuffle k l) = mset l)"

text \<open>
  The \<open>while count > 0\<close> loop of \<open>sample\<close>.  The arguments are the random source, the
  object's \<open>all_items\<close> and \<open>next_items\<close>, the number of shuffles drawn so far, the
  remaining \<open>count\<close> and the list \<open>out\<close>.  The loop does not return when \<open>all_items\<close> is
  empty and \<open>count\<close> is positive, so it is a partial function: \<open>None\<close> is not returning.
\<close>

partial_function (option) sample_loop ::
  "'a shuffle \<Rightarrow> 'a list \<Rightarrow> 'a list \<Rightarrow> nat \<Rightarrow> int \<Rightarrow> 'a list \<Rightarrow> ('a list \<times> 'a list \<times> nat) option"
where
  "sample_loop shuffle items nxt k cnt out =
     (if cnt > 0 then
        if cnt \<ge> int (length items) then
          sample_loop shuffle items nxt (k + 1) (cnt - int (length items)) (out @ shuffle k items)
        else
          let n = min cnt (int (length nxt));
              out' = out @ take (nat n) nxt;
              cnt' = cnt - n;
              nxt' = drop (nat n) nxt
          in if length nxt' = 0
             then sample_loop shuffle items (shuffle k items) (k + 1) cnt' out'
             else sample_loop shuffle items nxt' k cnt' out'
      else Some (out, nxt, k))"

declare sample_loop.simps [code]

text \<open>
  \<open>sample\<close>: one call on the object \<open>c\<close> after \<open>k\<close> shuffles; it returns the list drawn,
  the object with its new \<open>next_items\<close>, and the number of shuffles drawn.
\<close>

definition sample ::
  "'a shuffle \<Rightarrow> 'a RandomCycler \<times> nat \<Rightarrow> int \<Rightarrow> ('a list \<times> 'a RandomCycler \<times> nat) option"
where
  "sample shuffle ck cnt =
     (case sample_loop shuffle (all_items (fst ck)) (next_items (fst ck)) (snd ck) cnt [] of
        None \<Rightarrow> None
      | Some (out, nxt, k') \<Rightarrow> Some (out, (fst ck)\<lparr>next_items := nxt\<rparr>, k'))"

text \<open>
  A sequence of calls \<open>sample(c\<^sub>1)\<close>, \<open>sample(c\<^sub>2)\<close>, ... on one object; the result is the
  concatenation of the lists returned, with the final state.
\<close>

fun sample_calls ::
  "'a shuffle \<Rightarrow> 'a RandomCycler \<times> nat \<Rightarrow> int list \<Rightarrow> ('a list \<times> 'a RandomCycler \<times> nat) option"
where
  "sample_calls shuffle ck [] = Some ([], ck)"
| "sample_calls shuffle ck (cnt # cnts) =
     (case sample shuffle ck cnt of
        None \<Rightarrow> None
      | Some (out, ck') \<Rightarrow>
          (case sample_calls shuffle ck' cnts of
             None \<Rightarrow> None
           | Some (outs, ck'') \<Rightarrow> Some (out @ outs, ck'')))"

text \<open>
  The invariant of the object between two iterations of the loop, over the whole output
  \<open>out\<close> drawn since construction: \<open>out\<close> is \<open>j\<close> whole permutations of \<open>all_items\<close>
  (in any interleaving) and the part \<open>pre\<close> already taken from the permutation that
  \<open>next_items\<close> is the rest of.
\<close>

definition cyc_inv :: "'a list \<Rightarrow> 'a list \<Rightarrow> 'a list \<Rightarrow> bool" where
  "cyc_inv items nxt out =
     (\<exists>j pre. mset out = repeat_mset j (mset items) + mset pre \<and>
        (if nxt = [] then pre = [] else mset pre + mset nxt = mset items))"

text \<open>
  The gaps of an item \<open>x\<close> in an output, in the words of the file's header comment
  ("between two appearances of the same item, there may be at most \<open>2 * (n - 1)\<close> other
  items"): the numbers of other items drawn between each two consecutive appearances
  of \<open>x\<close>.
\<close>

definition positions :: "'a \<Rightarrow> 'a list \<Rightarrow> nat list" where
  "positions x out = filter (\<lambda>i. out ! i = x) [0..<length out]"

definition gaps :: "'a \<Rightarrow> 'a list \<Rightarrow> nat list" where
  "gaps x out = map2 (\<lambda>i j. j - i - 1) (positions x out) (tl (positions x out))"

text \<open>
  A concrete random source for evaluating the code: the first shuffle returns the list
  as it is, every later one returns it rotated by one place.
\<close>

definition rot_shuffle :: "nat shuffle" where
  "rot_shuffle k l = (if k = 0 then l else rotate1 l)"

section \<open>The hyperparameters read by the functions below\<close>

record hparams =
  symmetric_mels :: bool
  max_abs_value :: real
  min_level_db :: real
  allow_clipping_in_normalization :: bool

section \<open>synthesizer/synthesizer\_dataset.py\<close>

text \<open>
  A two-dimensional numpy array: its shape and its entries.  A mel spectrogram of the
  dataset has shape \<open>(n_mels, T)\<close>, so \<open>x.shape[-1]\<close> is \<open>ncols x\<close>, its time length.
\<close>

record array2 =
  nrows :: nat
  ncols :: nat
  entry :: "nat \<Rightarrow> nat \<Rightarrow> real"

text \<open>One item of a batch, as \<open>SynthesizerDataset.__getitem__\<close> returns it.\<close>

record sample_item =
  text_seq :: "int list"
  mel_spec :: array2
  speaker_embed :: "real list"
  index :: nat

text \<open>Python's \<open>max\<close> of a list raises \<open>ValueError\<close> on the empty list.\<close>

fun py_max :: "int list \<Rightarrow> pyexc + int" where
  "py_max [] = Inl (PyExc ''ValueError'' ''max() arg is an empty sequence'')"
| "py_max (x # xs) = Inr (fold max xs x)"

text \<open>
  \<open>np.pad\<close> with constant mode: a negative pad width raises \<open>ValueError\<close>.  \<open>pad1d\<close> pads
  a vector on the right, \<open>pad2d\<close> pads the last axis of a matrix on the right.
\<close>

definition pad1d :: "int list \<Rightarrow> int \<Rightarrow> int \<Rightarrow> pyexc + int list" where
  "pad1d x max_len pad_value =
     (if max_len - int (length x) < 0
      then Inl (PyExc ''ValueError'' ''index can't contain negative values'')
      else Inr (x @ replicate (nat (max_len - int (length x))) pad_value))"

definition pad2d :: "array2 \<Rightarrow> int \<Rightarrow> real \<Rightarrow> pyexc + array2" where
  "pad2d x max_len pad_value =
     (if max_len - int (ncols x) < 0
      then Inl (PyExc ''ValueError'' ''index can't contain negative values'')
      else Inr \<lparr>nrows = nrows x,
                ncols = ncols x + nat (max_len - int (ncols x)),
                entry = (\<lambda>i j. if j < ncols x then entry x i j else pad_value)\<rparr>)"

text \<open>Running a fallible function over a list stops at the first exception.\<close>

fun mapM :: "('a \<Rightarrow> pyexc + 'b) \<Rightarrow> 'a list \<Rightarrow> pyexc + 'b list" where
  "mapM f [] = Inr []"
| "mapM f (x # xs) =
     (case f x of
        Inl e \<Rightarrow> Inl e
      | Inr y \<Rightarrow> (case mapM f xs of Inl e \<Rightarrow> Inl e | Inr ys \<Rightarrow> Inr (y # ys)))"

text \<open>
  \<open>np.stack\<close> (and \<open>np.array\<close> followed by \<open>torch.tensor\<close> for the embeddings) needs
  arrays of one shape; the stacked tensor is kept as the list of its slices.
\<close>

definition np_stack :: "('a \<Rightarrow> 's) \<Rightarrow> 'a list \<Rightarrow> pyexc + 'a list" where
  "np_stack shape xs =
     (case xs of
        [] \<Rightarrow> Inl (PyExc ''ValueError'' ''need at least one array to stack'')
      | x # _ \<Rightarrow>
          if list_all (\<lambda>y. shape y = shape x) xs then Inr xs
          else Inl (PyExc ''ValueError'' ''all input arrays must have the same shape''))"

text \<open>
  The length every mel spectrogram of the batch is padded to: one more than the longest,
  rounded up to a multiple of \<open>r\<close>.  Python's \<open>%\<close> on integers is \<open>mod\<close> on \<open>int\<close> and
  raises \<open>ZeroDivisionError\<close> for \<open>r = 0\<close>.
\<close>

definition padded_spec_len :: "int list \<Rightarrow> int \<Rightarrow> pyexc + int" where
  "padded_spec_len spec_lens r =
     (case py_max spec_lens of
        Inl e \<Rightarrow> Inl e
      | Inr m \<Rightarrow>
          let max_spec_len = m + 1 in
          if r = 0 then Inl (PyExc ''ZeroDivisionError'' ''integer division or modulo by zero'')
          else if max_spec_len mod r \<noteq> 0
               then Inr (max_spec_len + (r - max_spec_len mod r))
               else Inr max_spec_len)"

text \<open>
  \<open>collate_synthesizer(batch, r, hparams)\<close> returns \<open>(chars, mel, embeds, indices)\<close>.
\<close>

definition collate_synthesizer ::
  "sample_item list \<Rightarrow> int \<Rightarrow> hparams
     \<Rightarrow> pyexc + (int list list \<times> array2 list \<times> real list list \<times> nat list)"
where
  "collate_synthesizer batch r hp =
     (case py_max (map (\<lambda>x. int (length (text_seq x))) batch) of
        Inl e \<Rightarrow> Inl e
      | Inr max_x_len \<Rightarrow>
     (case mapM (\<lambda>x. pad1d (text_seq x) max_x_len 0) batch of
        Inl e \<Rightarrow> Inl e
      | Inr chars0 \<Rightarrow>
     (case np_stack length chars0 of
        Inl e \<Rightarrow> Inl e
      | Inr chars \<Rightarrow>
     (case padded_spec_len (map (\<lambda>x. int (ncols (mel_spec x))) batch) r of
        Inl e \<Rightarrow> Inl e
      | Inr max_spec_len \<Rightarrow>
     (let mel_pad_value = (if symmetric_mels hp then - 1 * max_abs_value hp else 0) in
      case mapM (\<lambda>x. pad2d (mel_spec x) max_spec_len mel_pad_value) batch of
        Inl e \<Rightarrow> Inl e
      | Inr mel0 \<Rightarrow>
     (case np_stack (\<lambda>a. (nrows a, ncols a)) mel0 of
        Inl e \<Rightarrow> Inl e
      | Inr mel \<Rightarrow>
     (case np_stack length (map speaker_embed batch) of
        Inl e \<Rightarrow> Inl e
      | Inr embeds \<Rightarrow> Inr (chars, mel, embeds, map index batch))))))))"

section \<open>synthesizer/audio\_utils.py: normalisation of decibel spectrograms\<close>

text \<open>
  Floating-point numbers are modelled as real numbers, and an array by the list of its
  entries: \<open>_normalize\<close> and \<open>_denormalize\<close> work entry by entry, and \<open>S.max()\<close>,
  \<open>S.min()\<close> range over all entries (they raise \<open>ValueError\<close> on an array without
  entries).  \<open>np.clip(x, a_min, a_max)\<close> is \<open>minimum(maximum(x, a_min), a_max)\<close>.
  The functions \<open>_normalize\<close> and \<open>_denormalize\<close> are \<open>u_normalize\<close> and
  \<open>u_denormalize\<close> here.  A failed \<open>assert\<close> raises \<open>AssertionError\<close>.  Division by
  \<open>- min_level_db = 0\<close> is outside the model (numpy returns \<open>inf\<close> or \<open>nan\<close> there).
\<close>

definition np_clip :: "real \<Rightarrow> real \<Rightarrow> real \<Rightarrow> real" where
  "np_clip x a_min a_max = min (max x a_min) a_max"

fun np_amax :: "real list \<Rightarrow> pyexc + real" where
  "np_amax [] = Inl (PyExc ''ValueError'' ''zero-size array to reduction operation maximum which has no identity'')"
| "np_amax (x # xs) = Inr (fold max xs x)"

fun np_amin :: "real list \<Rightarrow> pyexc + real" where
  "np_amin [] = Inl (PyExc ''ValueError'' ''zero-size array to reduction operation minimum which has no identity'')"
| "np_amin (x # xs) = Inr (fold min xs x)"

definition u_normalize :: "real list \<Rightarrow> hparams \<Rightarrow> pyexc + real list" where
  "u_normalize S hp =
     (if allow_clipping_in_normalization hp then
        if symmetric_mels hp then
          Inr (map (\<lambda>s. np_clip ((2 * max_abs_value hp) * ((s - min_level_db hp) / (- min_level_db hp)) - max_abs_value hp)
                                 (- max_abs_value hp) (max_abs_value hp)) S)
        else
          Inr (map (\<lambda>s. np_clip (max_abs_value hp * ((s - min_level_db hp) / (- min_level_db hp)))
                                 0 (max_abs_value hp)) S)
      else
        case np_amax S of
          Inl e \<Rightarrow> Inl e
        | Inr smax \<Rightarrow>
            if \<not> smax \<le> 0 then Inl (PyExc ''AssertionError'' [])
            else
              case np_amin S of
                Inl e \<Rightarrow> Inl e
              | Inr smin \<Rightarrow>
                  if \<not> smin - min_level_db hp \<ge> 0 then Inl (PyExc ''AssertionError'' [])
                  else if symmetric_mels hp then
                    Inr (map (\<lambda>s. (2 * max_abs_value hp) * ((s - min_level_db hp) / (- min_level_db hp)) - max_abs_value hp) S)
                  else
                    Inr (map (\<lambda>s. max_abs_value hp * ((s - min_level_db hp) / (- min_level_db hp))) S))"

definition u_denormalize :: "real list \<Rightarrow> hparams \<Rightarrow> real list" where
  "u_denormalize D hp =
     (if allow_clipping_in_normalization hp then
        if symmetric_mels hp then
          map (\<lambda>d. ((np_clip d (- max_abs_value hp) (max_abs_value hp) + max_abs_value hp)
                       * - min_level_db hp / (2 * max_abs_value hp)) + min_level_db hp) D
        else
          map (\<lambda>d. (np_clip d 0 (max_abs_value hp) * - min_level_db hp / max_abs_value hp) + min_level_db hp) D
      else
        if symmetric_mels hp then
          map (\<lambda>d. ((d + max_abs_value hp) * - min_level_db hp / (2 * max_abs_value hp)) + min_level_db hp) D
        else
          map (\<lambda>d. (d * - min_level_db hp / max_abs_value hp) + min_level_db hp) D)"

text \<open>An unclipped, symmetric configuration, for evaluating the code.\<close>

definition hp1 :: hparams where
  "hp1 = \<lparr>symmetric_mels = True, max_abs_value = 4, min_level_db = - 100,
          allow_clipping_in_normalization = False\<rparr>"

section \<open>synthesizer/models/tacotron.py: tensors\<close>

text \<open>
  Floating-point numbers are real numbers.  A tensor is the nested list of its entries:
  a tensor of shape \<open>(b, n)\<close> is a list of \<open>b\<close> rows of length \<open>n\<close>.  An operation on
  tensors whose shapes do not fit raises \<open>RuntimeError\<close>; broadcasting between
  different shapes is outside the model, which raises there too.
\<close>

type_synonym tensor2 = "real list list"
type_synonym tensor3 = "real list list list"

definition RuntimeError :: pyexc where
  "RuntimeError = PyExc ''RuntimeError'' ''The size of tensor a must match the size of tensor b''"

definition zeros2 :: "nat \<Rightarrow> nat \<Rightarrow> tensor2" where
  "zeros2 b n = replicate b (replicate n 0)"

text \<open>Entrywise operations on two tensors of one shape: \<open>a + b\<close>, \<open>a * b\<close>.\<close>

definition ew2 :: "(real \<Rightarrow> real \<Rightarrow> real) \<Rightarrow> tensor2 \<Rightarrow> tensor2 \<Rightarrow> pyexc + tensor2" where
  "ew2 f a b =
     (if map length a = map length b then Inr (map2 (map2 f) a b) else Inl RuntimeError)"

text \<open>\<open>torch.cat([a, b], dim=-1)\<close> on tensors of shapes \<open>(b, n)\<close> and \<open>(b, m)\<close>.\<close>

definition cat_last :: "tensor2 \<Rightarrow> tensor2 \<Rightarrow> pyexc + tensor2" where
  "cat_last a b = (if length a = length b then Inr (map2 (@) a b) else Inl RuntimeError)"

text \<open>
  \<open>scores @ encoder_seq\<close> followed by \<open>squeeze(1)\<close>: for each element of the batch, the
  row of weights (shape \<open>(1, T)\<close>) times the encoder outputs (shape \<open>(T, d)\<close>).
\<close>

definition vec_mat :: "real list \<Rightarrow> real list list \<Rightarrow> real list" where
  "vec_mat w m =
     (case m of
        [] \<Rightarrow> []
      | row0 # _ \<Rightarrow> map (\<lambda>j. sum_list (map2 (\<lambda>wt row. wt * row ! j) w m)) [0..<length row0])"

definition bmm_squeeze :: "tensor3 \<Rightarrow> tensor3 \<Rightarrow> pyexc + tensor2" where
  "bmm_squeeze scores encoder_seq =
     (if length scores = length encoder_seq
         \<and> list_all2 (\<lambda>s m. length s = 1 \<and> list_all (\<lambda>w. length w = length m) s) scores encoder_seq
      then Inr (map2 (\<lambda>s m. vec_mat (concat s) m) scores encoder_seq)
      else Inl RuntimeError)"

definition softmax :: "real list \<Rightarrow> real list" where
  "softmax u = map (\<lambda>x. exp x / sum_list (map exp u)) u"

definition sigmoid :: "real \<Rightarrow> real" where
  "sigmoid x = 1 / (1 + exp (- x))"

section \<open>synthesizer/models/tacotron.py: the class LSA\<close>

text \<open>
  The object holds its learned layers and the two attributes \<open>cumulative\<close> and
  \<open>attention\<close>, which are \<open>None\<close> after construction.  The learned layers are a
  parameter of the model: \<open>energy A encoder_seq_proj query cumulative\<close> is the value of
  \<open>u\<close> after \<open>u = u.squeeze(-1)\<close>, a tensor of shape \<open>(b, T)\<close> computed by \<open>W\<close>, \<open>conv\<close>,
  \<open>L\<close>, \<open>v\<close> and \<open>tanh\<close> from the three tensors.
\<close>

record LSA =
  energy :: "tensor3 \<Rightarrow> tensor2 \<Rightarrow> tensor2 \<Rightarrow> tensor2"
  cumulative :: "tensor2 option"
  attention :: "tensor2 option"

definition init_attention :: "LSA \<Rightarrow> tensor3 \<Rightarrow> LSA" where
  "init_attention A encoder_seq_proj =
     (let b = length encoder_seq_proj;
          t = (case encoder_seq_proj of [] \<Rightarrow> 0 | m # _ \<Rightarrow> length m)
      in A\<lparr>cumulative := Some (zeros2 b t), attention := Some (zeros2 b t)\<rparr>)"

text \<open>
  \<open>LSA.forward(encoder_seq_proj, query, t, chars)\<close> returns the scores with shape
  \<open>(b, 1, T)\<close>; the object with its new attributes is returned with them.
\<close>

definition LSA_forward ::
  "LSA \<Rightarrow> tensor3 \<Rightarrow> tensor2 \<Rightarrow> nat \<Rightarrow> int list list \<Rightarrow> pyexc + (tensor3 \<times> LSA)"
where
  "LSA_forward A encoder_seq_proj query t chars =
     (let A1 = (if t = 0 then init_attention A encoder_seq_proj else A) in
      case cumulative A1 of
        None \<Rightarrow> Inl (PyExc ''AttributeError'' ''NoneType object has no attribute unsqueeze'')
      | Some cum \<Rightarrow>
          let u = energy A1 encoder_seq_proj query cum in
          case ew2 (*) u (map (map (\<lambda>c. if c \<noteq> 0 then 1 else 0)) chars) of
            Inl e \<Rightarrow> Inl e
          | Inr u' \<Rightarrow>
              let scores = map softmax u' in
              case ew2 (+) cum scores of
                Inl e \<Rightarrow> Inl e
              | Inr cum' \<Rightarrow>
                  Inr (map (\<lambda>row. [row]) scores,
                       A1\<lparr>cumulative := Some cum', attention := Some scores\<rparr>))"

text \<open>
  A sequence of calls of \<open>forward\<close> on one object, each with its arguments
  \<open>(encoder_seq_proj, query, t, chars)\<close>; the result is the list of the attention
  weights of the calls (the attribute \<open>attention\<close> after each, of shape \<open>(b, T)\<close>) and the
  object after the last call.
\<close>

fun LSA_steps ::
  "LSA \<Rightarrow> (tensor3 \<times> tensor2 \<times> nat \<times> int list list) list \<Rightarrow> pyexc + (tensor2 list \<times> LSA)"
where
  "LSA_steps A [] = Inr ([], A)"
| "LSA_steps A ((enc, q, t, chars) # calls) =
     (case LSA_forward A enc q t chars of
        Inl e \<Rightarrow> Inl e
      | Inr (scores, A') \<Rightarrow>
          (case LSA_steps A' calls of
             Inl e \<Rightarrow> Inl e
           | Inr (ws, A'') \<Rightarrow> Inr (concat scores # ws, A'')))"

text \<open>The entrywise sum of two tensors of one shape, and of a list of them.\<close>

definition add2 :: "tensor2 \<Rightarrow> tensor2 \<Rightarrow> tensor2" where
  "add2 a b = map2 (map2 (+)) a b"

section \<open>synthesizer/models/tacotron.py: the class Decoder\<close>

text \<open>
  The learned layers are parameters of the model, as functions on tensors.  The two
  random draws are parameters too: \<open>prenet D t\<close> is the prenet as it acts in the call of
  \<open>forward\<close> with step \<open>t\<close> (its dropout is active in every mode), and
  \<open>bernoulli D t i prev\<close> is the mask drawn by the \<open>i\<close>-th \<open>zoneout\<close> of that call.  The
  buffer \<open>r\<close> is the field \<open>cur_r\<close>; it is a positive count wherever the repository sets
  it.  \<open>max_r\<close> is the class attribute.  The \<open>squeeze(1)\<close> of the input of \<open>attn_rnn\<close>
  is part of the parameter \<open>attn_rnn\<close>.
\<close>

definition max_r :: nat where
  "max_r = 20"

record Decoder =
  n_mels :: nat
  cur_r :: nat
  training :: bool
  prenet :: "nat \<Rightarrow> tensor2 \<Rightarrow> tensor2"
  attn_net :: LSA
  attn_rnn :: "tensor2 \<Rightarrow> tensor2 \<Rightarrow> tensor2"
  rnn_input :: "tensor2 \<Rightarrow> tensor2"
  res_rnn1 :: "tensor2 \<Rightarrow> tensor2 \<times> tensor2 \<Rightarrow> tensor2 \<times> tensor2"
  res_rnn2 :: "tensor2 \<Rightarrow> tensor2 \<times> tensor2 \<Rightarrow> tensor2 \<times> tensor2"
  mel_proj :: "tensor2 \<Rightarrow> tensor2"
  stop_proj :: "tensor2 \<Rightarrow> tensor2"
  bernoulli :: "nat \<Rightarrow> nat \<Rightarrow> tensor2 \<Rightarrow> tensor2"

text \<open>\<open>zoneout(prev, current)\<close>: \<open>prev * mask + current * (1 - mask)\<close>.\<close>

definition zoneout :: "Decoder \<Rightarrow> nat \<Rightarrow> nat \<Rightarrow> tensor2 \<Rightarrow> tensor2 \<Rightarrow> pyexc + tensor2" where
  "zoneout D t i prev current =
     (let mask = bernoulli D t i prev in
      case ew2 (*) prev mask of
        Inl e \<Rightarrow> Inl e
      | Inr a \<Rightarrow>
          (case ew2 (\<lambda>c m. c * (1 - m)) current mask of
             Inl e \<Rightarrow> Inl e
           | Inr b \<Rightarrow> ew2 (+) a b))"

text \<open>
  \<open>x.view(a, b, c)\<close> of a tensor \<open>x\<close> with \<open>a * b * c\<close> entries; any other number of
  entries raises \<open>RuntimeError\<close>.  \<open>chunks n k xs\<close> cuts the first \<open>n\<close> pieces of length
  \<open>k\<close> from \<open>xs\<close>.
\<close>

fun chunks :: "nat \<Rightarrow> nat \<Rightarrow> 'a list \<Rightarrow> 'a list list" where
  "chunks 0 k xs = []"
| "chunks (Suc n) k xs = take k xs # chunks n k (drop k xs)"

definition view3 :: "tensor2 \<Rightarrow> nat \<Rightarrow> nat \<Rightarrow> nat \<Rightarrow> pyexc + tensor3" where
  "view3 x a b c =
     (if length (concat x) = a * b * c
      then Inr (chunks a b (chunks (a * b) c (concat x)))
      else Inl (PyExc ''RuntimeError'' ''shape is invalid for input''))"

text \<open>
  \<open>Decoder.forward\<close>.  It returns \<open>(mels, scores, hidden_states, cell_states,
  context_vec, stop_tokens)\<close>, and the decoder, whose attention object has changed.
\<close>

definition Decoder_forward ::
  "Decoder \<Rightarrow> tensor3 \<Rightarrow> tensor3 \<Rightarrow> tensor2 \<Rightarrow> tensor2 \<times> tensor2 \<times> tensor2
     \<Rightarrow> tensor2 \<times> tensor2 \<Rightarrow> tensor2 \<Rightarrow> nat \<Rightarrow> int list list
     \<Rightarrow> pyexc + ((tensor3 \<times> tensor3 \<times> (tensor2 \<times> tensor2 \<times> tensor2)
                   \<times> (tensor2 \<times> tensor2) \<times> tensor2 \<times> tensor2) \<times> Decoder)"
where
  "Decoder_forward D encoder_seq encoder_seq_proj prenet_in hidden_states cell_states
       context_vec t chars =
     (let batch_size = length encoder_seq;
          attn_hidden = fst hidden_states;
          rnn1_hidden = fst (snd hidden_states);
          rnn2_hidden = snd (snd hidden_states);
          rnn1_cell = fst cell_states;
          rnn2_cell = snd cell_states;
          prenet_out = prenet D t prenet_in
      in
      bind_exc (cat_last context_vec prenet_out) (\<lambda>attn_rnn_in.
      let attn_hidden = attn_rnn D attn_rnn_in attn_hidden in
      bind_exc (LSA_forward (attn_net D) encoder_seq_proj attn_hidden t chars) (\<lambda>sA.
      let scores = fst sA in
      bind_exc (bmm_squeeze scores encoder_seq) (\<lambda>context_vec.
      bind_exc (cat_last context_vec attn_hidden) (\<lambda>x0.
      let x = rnn_input D x0;
          hc1 = res_rnn1 D x (rnn1_hidden, rnn1_cell);
          rnn1_hidden_next = fst hc1;
          rnn1_cell = snd hc1
      in
      bind_exc (if training D then zoneout D t 1 rnn1_hidden rnn1_hidden_next
                else Inr rnn1_hidden_next) (\<lambda>rnn1_hidden.
      bind_exc (ew2 (+) x rnn1_hidden) (\<lambda>x.
      let hc2 = res_rnn2 D x (rnn2_hidden, rnn2_cell);
          rnn2_hidden_next = fst hc2;
          rnn2_cell = snd hc2
      in
      bind_exc (if training D then zoneout D t 2 rnn2_hidden rnn2_hidden_next
                else Inr rnn2_hidden_next) (\<lambda>rnn2_hidden.
      bind_exc (ew2 (+) x rnn2_hidden) (\<lambda>x.
      bind_exc (view3 (mel_proj D x) batch_size (n_mels D) max_r) (\<lambda>mels0.
      let mels = map (map (take (cur_r D))) mels0;
          hidden_states = (attn_hidden, rnn1_hidden, rnn2_hidden);
          cell_states = (rnn1_cell, rnn2_cell)
      in
      bind_exc (cat_last x context_vec) (\<lambda>s.
      let stop_tokens = map (map sigmoid) (stop_proj D s) in
      Inr ((mels, scores, hidden_states, cell_states, context_vec, stop_tokens),
           D\<lparr>attn_net := snd sA\<rparr>))))))))))))"

section \<open>synthesizer/models/tacotron.py: the decoder loop of Tacotron.generate\<close>

text \<open>
  The model object: its decoder, the encoder and its projection (parameters of the
  model), the dimensions, and the buffer \<open>stop_threshold\<close> that the constructor
  registers.  \<open>Tacotron.n_mels\<close> is the same constructor argument as the decoder's
  \<open>n_mels\<close>, and the property \<open>Tacotron.r\<close> reads the decoder's buffer.
\<close>

record Tacotron =
  decoder :: Decoder
  encoder :: "int list list \<Rightarrow> real list list option \<Rightarrow> tensor3"
  encoder_proj :: "tensor3 \<Rightarrow> tensor3"
  stop_threshold :: real
  encoder_dims :: nat
  decoder_dims :: nat
  lstm_dims :: nat
  speaker_embedding_size :: nat

text \<open>The local variables of \<open>generate\<close> that the loop changes, with the decoder.\<close>

record decode_state =
  dec :: Decoder
  hidden_states :: "tensor2 \<times> tensor2 \<times> tensor2"
  cell_states :: "tensor2 \<times> tensor2"
  context_vec :: tensor2
  mel_outputs :: "tensor3 list"
  attn_scores :: "tensor3 list"
  stop_outputs :: "tensor2 list"

text \<open>
  \<open>range(0, steps, r)\<close>: the frame indices \<open>0, r, 2r, ...\<close> below \<open>steps\<close>; a step of \<open>0\<close>
  raises \<open>ValueError\<close>.
\<close>

definition py_range :: "int \<Rightarrow> nat \<Rightarrow> pyexc + nat list" where
  "py_range steps step =
     (if step = 0 then Inl (PyExc ''ValueError'' ''range() arg 3 must not be zero'')
      else Inr (map (\<lambda>k. k * step) [0..<(nat steps + step - 1) div step]))"

text \<open>\<open>mel_outputs[-1][:, :, -1]\<close>: the last frame of the last group emitted.\<close>

definition last_frame :: "tensor3 list \<Rightarrow> pyexc + tensor2" where
  "last_frame outs =
     (if outs = [] then Inl (PyExc ''IndexError'' ''list index out of range'')
      else if list_all (list_all (\<lambda>row. row \<noteq> [])) (last outs)
      then Inr (map (map last) (last outs))
      else Inl (PyExc ''IndexError'' ''index -1 is out of bounds for dimension 2 with size 0''))"

text \<open>The condition of the \<open>break\<close>: \<open>(stop_tokens > 0.5).all() and t > 10\<close>.\<close>

definition break_cond :: "tensor2 \<Rightarrow> nat \<Rightarrow> bool" where
  "break_cond stop_tokens t = (list_all (list_all (\<lambda>p. p > 0.5)) stop_tokens \<and> t > 10)"

text \<open>
  The loop \<open>for t in range(0, steps, self.r)\<close> of \<open>generate\<close>, over the list of the values
  of \<open>t\<close> still to come.
\<close>

fun generate_loop ::
  "tensor3 \<Rightarrow> tensor3 \<Rightarrow> int list list \<Rightarrow> tensor2 \<Rightarrow> nat list \<Rightarrow> decode_state
     \<Rightarrow> pyexc + decode_state"
where
  "generate_loop encoder_seq encoder_seq_proj x go_frame [] st = Inr st"
| "generate_loop encoder_seq encoder_seq_proj x go_frame (t # ts) st =
     (case (if t > 0 then last_frame (mel_outputs st) else Inr go_frame) of
        Inl e \<Rightarrow> Inl e
      | Inr prenet_in \<Rightarrow>
          (case Decoder_forward (dec st) encoder_seq encoder_seq_proj prenet_in
                  (hidden_states st) (cell_states st) (context_vec st) t x of
             Inl e \<Rightarrow> Inl e
           | Inr ((mel_frames, scores, hidden_states', cell_states', context_vec', stop_tokens), D') \<Rightarrow>
               let st' = \<lparr>dec = D', hidden_states = hidden_states', cell_states = cell_states',
                          context_vec = context_vec',
                          mel_outputs = mel_outputs st @ [mel_frames],
                          attn_scores = attn_scores st @ [scores],
                          stop_outputs = stop_outputs st @ replicate (cur_r (dec st)) stop_tokens\<rparr>
               in if break_cond stop_tokens t then Inr st'
                  else generate_loop encoder_seq encoder_seq_proj x go_frame ts st'))"

text \<open>
  \<open>Tacotron.generate(x, speaker_embedding, steps)\<close> up to the end of its loop: the
  state when the loop is left.  The number of decoder steps made is the length of
  \<open>mel_outputs\<close>.  (The rest of \<open>generate\<close> concatenates the lists and runs the post-net.)
\<close>

definition generate_decode ::
  "Tacotron \<Rightarrow> int list list \<Rightarrow> real list list option \<Rightarrow> int \<Rightarrow> pyexc + decode_state"
where
  "generate_decode M x speaker_embedding steps =
     (let D = (decoder M)\<lparr>training := False\<rparr>;
          batch_size = length x;
          attn_hidden = zeros2 batch_size (decoder_dims M);
          rnn1_hidden = zeros2 batch_size (lstm_dims M);
          rnn2_hidden = zeros2 batch_size (lstm_dims M);
          rnn1_cell = zeros2 batch_size (lstm_dims M);
          rnn2_cell = zeros2 batch_size (lstm_dims M);
          go_frame = zeros2 batch_size (n_mels D);
          context_vec0 = zeros2 batch_size (encoder_dims M + speaker_embedding_size M);
          encoder_seq = encoder M x speaker_embedding;
          encoder_seq_proj = encoder_proj M encoder_seq
      in
      case py_range steps (cur_r D) of
        Inl e \<Rightarrow> Inl e
      | Inr ts \<Rightarrow>
          generate_loop encoder_seq encoder_seq_proj x go_frame ts
            \<lparr>dec = D, hidden_states = (attn_hidden, rnn1_hidden, rnn2_hidden),
             cell_states = (rnn1_cell, rnn2_cell), context_vec = context_vec0,
             mel_outputs = [], attn_scores = [], stop_outputs = []\<rparr>)"

text \<open>
  An attention object for evaluating the code: its energy at a position is the sum of
  the entries of the encoder projection there.
\<close>

definition A0 :: LSA where
  "A0 = \<lparr>energy = (\<lambda>enc q cum. map (map sum_list) enc), cumulative = None, attention = None\<rparr>"

text \<open>
  The number of decoder steps a run of the loop has made, and the stop probabilities it
  has collected.
\<close>

definition decoder_steps :: "pyexc + decode_state \<Rightarrow> pyexc + nat" where
  "decoder_steps res = (case res of Inl e \<Rightarrow> Inl e | Inr st \<Rightarrow> Inr (length (mel_outputs st)))"

definition stop_trace :: "pyexc + decode_state \<Rightarrow> pyexc + tensor2 list" where
  "stop_trace res = (case res of Inl e \<Rightarrow> Inl e | Inr st \<Rightarrow> Inr (stop_outputs st))"

text \<open>
  A decoder and a model for evaluating the code, with one-dimensional states, two mel
  channels, an all-zero encoder output and a stop projection that is constantly \<open>ln 3\<close>,
  so that every stop probability is \<open>3/4\<close>; \<open>frames0 r\<close> is the frame group that decoder
  emits.
\<close>

definition D0 :: "nat \<Rightarrow> Decoder" where
  "D0 r = \<lparr>n_mels = 2, cur_r = r, training = False,
           prenet = (\<lambda>t x. x), attn_net = A0,
           attn_rnn = (\<lambda>inp h. h),
           rnn_input = (\<lambda>x. map (\<lambda>_. [0]) x),
           res_rnn1 = (\<lambda>x hc. hc), res_rnn2 = (\<lambda>x hc. hc),
           mel_proj = (\<lambda>x. map (\<lambda>_. replicate (2 * max_r) 0) x),
           stop_proj = (\<lambda>s. map (\<lambda>_. [ln 3]) s),
           bernoulli = (\<lambda>t i prev. prev)\<rparr>"

definition M0 :: "nat \<Rightarrow> real \<Rightarrow> Tacotron" where
  "M0 r thr = \<lparr>decoder = D0 r,
              encoder = (\<lambda>x se. map (map (\<lambda>_. [0])) x),
              encoder_proj = (\<lambda>e. e),
              stop_threshold = thr,
              encoder_dims = 1, decoder_dims = 1, lstm_dims = 1, speaker_embedding_size = 0\<rparr>"

definition frames0 :: "nat \<Rightarrow> tensor3" where
  "frames0 r = [[replicate (min r 20) 0, replicate (min r 20) 0]]"

text \<open>A batch of two items and a configuration, for evaluating the code.\<close>

definition item1 :: sample_item where
  "item1 = \<lparr>text_seq = [3, 4], mel_spec = \<lparr>nrows = 2, ncols = 7, entry = (\<lambda>i j. 0)\<rparr>,
            speaker_embed = [1], index = 0\<rparr>"

definition item2 :: sample_item where
  "item2 = \<lparr>text_seq = [5], mel_spec = \<lparr>nrows = 2, ncols = 9, entry = (\<lambda>i j. 0)\<rparr>,
            speaker_embed = [2], index = 1\<rparr>"

definition hp0 :: hparams where
  "hp0 = \<lparr>symmetric_mels = True, max_abs_value = 4, min_level_db = - 100,
          allow_clipping_in_normalization = True\<rparr>"

section \<open>Properties of the fair cyclic sampler\<close>

lemma valid_shuffle_mset: "valid_shuffle sh \<Longrightarrow> mset (sh k l) = mset l"
  by (simp add: valid_shuffle_def)

lemma valid_shuffle_nonempty: "valid_shuffle sh \<Longrightarrow> l \<noteq> [] \<Longrightarrow> sh k l \<noteq> []"
  using valid_shuffle_mset[of sh k l] by (metis mset_zero_iff)

lemma cyc_inv_full:
  assumes "cyc_inv items nxt out" "mset p = mset items"
  shows "cyc_inv items nxt (out @ p)"
proof -
  from assms(1) obtain j pre where
    h: "mset out = repeat_mset j (mset items) + mset pre"
       "if nxt = [] then pre = [] else mset pre + mset nxt = mset items"
    unfolding cyc_inv_def by blast
  have "mset (out @ p) = repeat_mset (Suc j) (mset items) + mset pre"
    using h(1) assms(2) by simp
  with h(2) show ?thesis unfolding cyc_inv_def by blast
qed

lemma cyc_inv_refill:
  assumes "cyc_inv items [] out" "mset p = mset items"
  shows "cyc_inv items p out"
  using assms unfolding cyc_inv_def by auto

lemma cyc_inv_take_all:
  assumes "cyc_inv items nxt out" "nxt \<noteq> []" "mset p = mset items"
  shows "cyc_inv items p (out @ nxt)"
proof -
  from assms(1,2) obtain j pre where
    h: "mset out = repeat_mset j (mset items) + mset pre"
       "mset pre + mset nxt = mset items"
    unfolding cyc_inv_def by auto
  have "mset (out @ nxt) = repeat_mset (Suc j) (mset items) + mset []"
    using h by (simp add: ac_simps)
  then show ?thesis using assms(3) unfolding cyc_inv_def
    by (metis add_cancel_right_left mset.simps(1) mset_zero_iff)
qed

lemma cyc_inv_take_some:
  assumes "cyc_inv items nxt out" "drop n nxt \<noteq> []"
  shows "cyc_inv items (drop n nxt) (out @ take n nxt)"
proof -
  from assms have ne: "nxt \<noteq> []" by auto
  with assms(1) obtain j pre where
    h: "mset out = repeat_mset j (mset items) + mset pre"
       "mset pre + mset nxt = mset items"
    unfolding cyc_inv_def by auto
  have "mset nxt = mset (take n nxt) + mset (drop n nxt)"
    by (metis append_take_drop_id mset_append)
  then have "mset (pre @ take n nxt) + mset (drop n nxt) = mset items"
    using h(2) by (simp add: ac_simps)
  moreover have "mset (out @ take n nxt) = repeat_mset j (mset items) + mset (pre @ take n nxt)"
    using h(1) by simp
  ultimately show ?thesis using assms(2) unfolding cyc_inv_def by metis
qed

lemma sample_loop_inv:
  assumes vs: "valid_shuffle sh" and ne: "items \<noteq> []"
  shows "cyc_inv items nxt (acc @ out) \<Longrightarrow>
     \<exists>ys nxt' k'. sample_loop sh items nxt k cnt out = Some (out @ ys, nxt', k')
        \<and> cyc_inv items nxt' (acc @ out @ ys) \<and> int (length ys) = max 0 cnt"
proof (induction "2 * nat cnt + (if nxt = [] then 1 else (0::nat))" arbitrary: nxt k cnt out rule: less_induct)
  case less
  note inv = less.prems
  let ?p = "sh k items"
  have p: "mset ?p = mset items" using vs by (rule valid_shuffle_mset)
  then have lp: "length ?p = length items" by (metis size_mset)
  have pne: "?p \<noteq> []" using vs ne by (rule valid_shuffle_nonempty)
  show ?case
  proof (cases "cnt > 0")
    case False
    then show ?thesis using inv by (subst sample_loop.simps) simp
  next
    case pos: True
    show ?thesis
    proof (cases "cnt \<ge> int (length items)")
      case True
      have m: "2 * nat (cnt - int (length items)) + (if nxt = [] then 1 else 0)
            < 2 * nat cnt + (if nxt = [] then 1 else (0::nat))"
        using ne True pos by (auto simp: nat_diff_distrib)
      have i': "cyc_inv items nxt (acc @ (out @ ?p))"
        using cyc_inv_full[OF inv p] by simp
      from less.hyps[OF m i', of "k + 1"]
      obtain ys nxt' k' where
        r: "sample_loop sh items nxt (k + 1) (cnt - int (length items)) (out @ ?p) = Some ((out @ ?p) @ ys, nxt', k')"
           "cyc_inv items nxt' (acc @ (out @ ?p) @ ys)"
           "int (length ys) = max 0 (cnt - int (length items))"
        by blast
      have "sample_loop sh items nxt k cnt out = Some (out @ (?p @ ys), nxt', k')"
        using r(1) pos True by (subst sample_loop.simps) simp
      moreover have "int (length (?p @ ys)) = max 0 cnt"
        using r(3) lp True pos by simp
      moreover have "cyc_inv items nxt' (acc @ out @ (?p @ ys))" using r(2) by simp
      ultimately show ?thesis by blast
    next
      case small: False
      show ?thesis
      proof (cases "nxt = []")
        case True
        have m: "2 * nat cnt + (if ?p = [] then 1 else 0) < 2 * nat cnt + (if nxt = [] then 1 else (0::nat))"
          using True pne by simp
        have i': "cyc_inv items ?p (acc @ out)"
          using cyc_inv_refill[OF inv[unfolded True] p] .
        from less.hyps[OF m i', of "k + 1"]
        obtain ys nxt' k' where
          r: "sample_loop sh items ?p (k + 1) cnt out = Some (out @ ys, nxt', k')"
             "cyc_inv items nxt' (acc @ out @ ys)" "int (length ys) = max 0 cnt"
          by blast
        have "sample_loop sh items nxt k cnt out = Some (out @ ys, nxt', k')"
          using r(1) pos small True by (subst sample_loop.simps) simp
        then show ?thesis using r(2,3) by blast
      next
        case nne: False
        define n where "n = min cnt (int (length nxt))"
        have npos: "0 < n" "n \<le> cnt" "nat n \<le> length nxt" using pos nne by (auto simp: n_def)
        show ?thesis
        proof (cases "drop (nat n) nxt = []")
          case True
          then have tk: "take (nat n) nxt = nxt" and ln: "n = int (length nxt)"
            using npos by auto
          have m: "2 * nat (cnt - n) + (if ?p = [] then 1 else 0) < 2 * nat cnt + (if nxt = [] then 1 else (0::nat))"
            using npos pne by auto
          have i': "cyc_inv items ?p (acc @ (out @ nxt))"
            using cyc_inv_take_all[OF inv nne p] by simp
          from less.hyps[OF m i', of "k + 1"]
          obtain ys nxt' k' where
            r: "sample_loop sh items ?p (k + 1) (cnt - n) (out @ nxt) = Some ((out @ nxt) @ ys, nxt', k')"
               "cyc_inv items nxt' (acc @ (out @ nxt) @ ys)" "int (length ys) = max 0 (cnt - n)"
            by blast
          have "sample_loop sh items nxt k cnt out = Some (out @ (nxt @ ys), nxt', k')"
            using r(1) pos small True tk by (subst sample_loop.simps) (simp add: n_def Let_def)
          moreover have "int (length (nxt @ ys)) = max 0 cnt"
            using r(3) ln npos by simp
          moreover have "cyc_inv items nxt' (acc @ out @ (nxt @ ys))" using r(2) by simp
          ultimately show ?thesis by blast
        next
          case False
          then have nc: "n = cnt" using npos by (auto simp: n_def min_def split: if_splits)
          have "sample_loop sh items (drop (nat n) nxt) k (cnt - n) (out @ take (nat n) nxt)
                = Some (out @ take (nat n) nxt, drop (nat n) nxt, k)"
            using nc by (subst sample_loop.simps) simp
          moreover have "length (drop (nat n) nxt) \<noteq> 0" using False by simp
          ultimately have "sample_loop sh items nxt k cnt out = Some (out @ take (nat n) nxt, drop (nat n) nxt, k)"
            using pos small unfolding n_def by (subst sample_loop.simps) (simp only: Let_def if_True if_False)
          moreover have "int (length (take (nat n) nxt)) = max 0 cnt"
            using npos nc by simp
          moreover have "cyc_inv items (drop (nat n) nxt) (acc @ out @ take (nat n) nxt)"
            using cyc_inv_take_some[OF inv False] by simp
          ultimately show ?thesis by blast
        qed
      qed
    qed
  qed
qed

lemma cyc_inv_init: "cyc_inv items [] []"
  unfolding cyc_inv_def by (rule exI[of _ 0]) simp

lemma sample_inv:
  assumes "valid_shuffle sh" "all_items c \<noteq> []" "cyc_inv (all_items c) (next_items c) acc"
  shows "\<exists>ys c' k'. sample sh (c, k) cnt = Some (ys, c', k') \<and> all_items c' = all_items c
            \<and> cyc_inv (all_items c') (next_items c') (acc @ ys) \<and> int (length ys) = max 0 cnt"
proof -
  have "cyc_inv (all_items c) (next_items c) (acc @ [])" using assms(3) by simp
  from sample_loop_inv[OF assms(1,2) this, of k cnt]
  obtain ys nxt' k' where
    r: "sample_loop sh (all_items c) (next_items c) k cnt [] = Some ([] @ ys, nxt', k')"
       "cyc_inv (all_items c) nxt' (acc @ [] @ ys)" "int (length ys) = max 0 cnt"
    by blast
  have "sample sh (c, k) cnt = Some (ys, c\<lparr>next_items := nxt'\<rparr>, k')"
    using r(1) by (simp add: sample_def)
  then show ?thesis using r(2,3) by auto
qed

lemma sample_calls_inv:
  assumes "valid_shuffle sh"
  shows "all_items c \<noteq> [] \<Longrightarrow> cyc_inv (all_items c) (next_items c) acc \<Longrightarrow>
     \<exists>ys c' k'. sample_calls sh (c, k) cnts = Some (ys, c', k') \<and> all_items c' = all_items c
            \<and> cyc_inv (all_items c') (next_items c') (acc @ ys)
            \<and> int (length ys) = sum_list (map (max 0) cnts)"
proof (induction cnts arbitrary: c k acc)
  case Nil
  then show ?case by simp
next
  case (Cons cnt cnts)
  from sample_inv[OF assms Cons.prems, of k cnt]
  obtain ys c' k' where
    r: "sample sh (c, k) cnt = Some (ys, c', k')" "all_items c' = all_items c"
       "cyc_inv (all_items c') (next_items c') (acc @ ys)" "int (length ys) = max 0 cnt"
    by blast
  from Cons.IH[of c' "acc @ ys" k'] r(2,3) Cons.prems(1)
  obtain zs c'' k'' where
    q: "sample_calls sh (c', k') cnts = Some (zs, c'', k'')" "all_items c'' = all_items c'"
       "cyc_inv (all_items c'') (next_items c'') ((acc @ ys) @ zs)"
       "int (length zs) = sum_list (map (max 0) cnts)"
    by auto
  have "sample_calls sh (c, k) (cnt # cnts) = Some (ys @ zs, c'', k'')"
    using r(1) q(1) by simp
  then show ?case using q(2,3,4) r(2,4) by auto
qed

lemma cyc_inv_count:
  assumes inv: "cyc_inv items nxt out" and ne: "items \<noteq> []"
  shows "int (count_list items x) * (int (length out) div int (length items))
           \<le> int (count_list out x)
       \<and> int (count_list out x)
           \<le> int (count_list items x) * ((int (length out) - 1) div int (length items) + 1)"
proof -
  from inv obtain j pre where
    h: "mset out = repeat_mset j (mset items) + mset pre"
       "if nxt = [] then pre = [] else mset pre + mset nxt = mset items"
    unfolding cyc_inv_def by blast
  define n where "n = int (length items)"
  define c where "c = count_list items x"
  have npos: "0 < n" using ne by (simp add: n_def)
  have len: "length out = j * length items + length pre"
    using arg_cong[OF h(1), of size] by simp
  have cnt: "count_list out x = j * c + count_list pre x"
    using arg_cong[OF h(1), of "\<lambda>M. count M x"] by (simp add: count_mset c_def)
  have pre_lt: "length pre < length items"
  proof (cases "nxt = []")
    case True then show ?thesis using h(2) ne by simp
  next
    case False
    then have "size (mset pre) + size (mset nxt) = size (mset items)"
      using h(2) by (metis size_union)
    then show ?thesis using False by (cases nxt) auto
  qed
  have pre_le: "count_list pre x \<le> c"
  proof (cases "nxt = []")
    case True then show ?thesis using h(2) by simp
  next
    case False
    then have "count (mset pre) x + count (mset nxt) x = count (mset items) x"
      using h(2) by (metis count_union)
    then show ?thesis by (simp add: count_mset c_def)
  qed
  have m: "int (length out) = int j * n + int (length pre)" using len by (simp add: n_def)
  have lo: "int (length out) div n = int j"
    using m pre_lt npos by (simp add: n_def)
  have hi: "(int (length out) - 1) div n + 1 = int j + (if pre = [] then 0 else 1)"
  proof (cases "pre = []")
    case True
    have "int j * n - 1 = (n - 1) + (int j - 1) * n" by (simp add: algebra_simps)
    then have "(int j * n - 1) div n = (n - 1) div n + (int j - 1)"
      using npos by (simp only: div_mult_self1)
    then have "(int j * n - 1) div n = int j - 1"
      using npos by simp
    then show ?thesis using True m by simp
  next
    case False
    then have "0 \<le> int (length pre) - 1" "int (length pre) - 1 < n"
      using pre_lt by (auto simp: n_def)
    then have "(int j * n + (int (length pre) - 1)) div n = int j"
      using npos by simp
    then show ?thesis using False m by (simp add: algebra_simps)
  qed
  have lower: "int c * int j \<le> int (count_list out x)" using cnt by simp
  have upper: "int (count_list out x) \<le> int c * (int j + (if pre = [] then 0 else 1))"
  proof (cases "pre = []")
    case True
    then show ?thesis using cnt by simp
  next
    case False
    have "int (count_list out x) = int c * int j + int (count_list pre x)" using cnt by simp
    also have "\<dots> \<le> int c * int j + int c" using pre_le by simp
    finally show ?thesis using False by (simp add: algebra_simps)
  qed
  show ?thesis using lower upper unfolding lo[unfolded n_def] hi[unfolded n_def] c_def by simp
qed

lemma mset_rotate1_eq: "mset (rotate1 l) = mset l"
  by (cases l) simp_all

lemma valid_rot_shuffle: "valid_shuffle rot_shuffle"
  by (simp add: valid_shuffle_def rot_shuffle_def mset_rotate1_eq)

text \<open>
  C8, as amended.  The constructor fails on the empty pool, at once, with a plain
  \<open>Exception\<close> whose message is "RandomCycler was provided an empty collection.", and
  succeeds on every other pool, with an empty \<open>next_items\<close>.
\<close>

theorem RandomCycler_init_result:
  "RandomCycler_init source =
     (if source = []
      then Inl (PyExc ''Exception'' ''RandomCycler was provided an empty collection.'')
      else Inr \<lparr>all_items = source, next_items = []\<rparr>)"
  by (simp add: RandomCycler_init_def)

text \<open>
  C8, as stated, fails: the exception raised on the empty pool is of class \<open>Exception\<close>,
  not of a class \<open>EmptyPoolError\<close>.
\<close>

theorem RandomCycler_init_not_EmptyPoolError:
  "RandomCycler_init ([] :: nat list)
     = Inl (PyExc ''Exception'' ''RandomCycler was provided an empty collection.'')
   \<and> exc_class (PyExc ''Exception'' ''RandomCycler was provided an empty collection.'')
       \<noteq> ''EmptyPoolError''"
  by (simp add: RandomCycler_init_def)

text \<open>
  C5.  For a pool of \<open>n \<ge> 1\<close> items, an admissible random source and any sequence of
  calls of \<open>sample\<close>: the calls return, the total number \<open>m\<close> of items drawn is the sum of
  the (positive) counts asked for, and an item that the pool holds \<open>c\<close> times occurs
  between \<open>c * (m div n)\<close> and \<open>c * ((m - 1) div n + 1)\<close> times in the concatenated output.
  For every item the pool holds once (\<open>c = 1\<close>) this is the interval from \<open>m div n\<close> to
  \<open>(m - 1) div n + 1\<close>.
\<close>

theorem sample_counts_bounded:
  assumes "valid_shuffle sh" and "RandomCycler_init pool = Inr c"
  shows "\<exists>out c' k'. sample_calls sh (c, k) cnts = Some (out, c', k')
           \<and> int (length out) = sum_list (map (max 0) cnts)
           \<and> int (count_list pool x) * (int (length out) div int (length pool))
                \<le> int (count_list out x)
           \<and> int (count_list out x)
                \<le> int (count_list pool x) * ((int (length out) - 1) div int (length pool) + 1)"
proof -
  from assms(2) have c: "all_items c = pool" "next_items c = []" and ne: "pool \<noteq> []"
    by (auto simp: RandomCycler_init_def split: if_splits)
  have "cyc_inv (all_items c) (next_items c) []" using c cyc_inv_init by metis
  from sample_calls_inv[OF assms(1) _ this, of k cnts] c ne
  obtain out c' k' where
    r: "sample_calls sh (c, k) cnts = Some (out, c', k')" "all_items c' = pool"
       "cyc_inv (all_items c') (next_items c') out"
       "int (length out) = sum_list (map (max 0) cnts)"
    by auto
  from cyc_inv_count[OF r(3)[unfolded r(2)] ne, of x] r(1,4)
  show ?thesis by blast
qed

theorem sample_counts_bounded_witness:
  "valid_shuffle rot_shuffle
   \<and> RandomCycler_init [0, 1, 2 :: nat] = Inr \<lparr>all_items = [0, 1, 2], next_items = []\<rparr>
   \<and> count_list [0, 1, 2 :: nat] 0 = 1
   \<and> (\<exists>out c' k'.
         sample_calls rot_shuffle (\<lparr>all_items = [0, 1, 2], next_items = []\<rparr>, 0) [7]
           = Some (out, c', k')
         \<and> int (length out) = sum_list (map (max 0) [7])
         \<and> int (count_list [0, 1, 2 :: nat] 0) * (int (length out) div int (length [0, 1, 2 :: nat]))
              \<le> int (count_list out 0)
         \<and> int (count_list out 0)
              \<le> int (count_list [0, 1, 2 :: nat] 0) * ((int (length out) - 1) div int (length [0, 1, 2 :: nat]) + 1))"
proof -
  have i: "RandomCycler_init [0, 1, 2 :: nat] = Inr \<lparr>all_items = [0, 1, 2], next_items = []\<rparr>"
    by (simp add: RandomCycler_init_def)
  have d: "count_list [0, 1, 2 :: nat] 0 = 1" by simp
  from sample_counts_bounded[OF valid_rot_shuffle i, of 0 "[7]" 0] valid_rot_shuffle i d
  show ?thesis by blast
qed

text \<open>
  C4.  The bound on the gap stated in the file's header comment fails on the code.
  With the pool \<open>[0, 1, 2]\<close> and the calls \<open>sample(3)\<close>, \<open>sample(2)\<close>, \<open>sample(3)\<close>, the
  first and the last call each emit a fresh permutation without touching \<open>next_items\<close>;
  when the shuffles return \<open>[0, 1, 2]\<close>, \<open>[1, 2, 0]\<close> and \<open>[1, 2, 0]\<close>, six other items
  are drawn between the two appearances of item \<open>0\<close>, and \<open>2 * (n - 1) = 4\<close>.
\<close>

theorem sample_gap_exceeds_bound:
  "valid_shuffle rot_shuffle
   \<and> RandomCycler_init [0, 1, 2 :: nat] = Inr \<lparr>all_items = [0, 1, 2], next_items = []\<rparr>
   \<and> sample_calls rot_shuffle (\<lparr>all_items = [0, 1, 2 :: nat], next_items = []\<rparr>, 0) [3, 2, 3]
       = Some ([0, 1, 2, 1, 2, 1, 2, 0], \<lparr>all_items = [0, 1, 2], next_items = [0]\<rparr>, 3)
   \<and> gaps (0 :: nat) [0, 1, 2, 1, 2, 1, 2, 0] = [6]
   \<and> \<not> (6 :: nat) \<le> 2 * (length [0, 1, 2 :: nat] - 1)"
proof -
  have "sample_calls rot_shuffle (\<lparr>all_items = [0, 1, 2 :: nat], next_items = []\<rparr>, 0) [3, 2, 3]
       = Some ([0, 1, 2, 1, 2, 1, 2, 0], \<lparr>all_items = [0, 1, 2], next_items = [0]\<rparr>, 3)"
    by code_simp
  moreover have "gaps (0 :: nat) [0, 1, 2, 1, 2, 1, 2, 0] = [6]"
    by code_simp
  moreover have "RandomCycler_init [0, 1, 2 :: nat] = Inr \<lparr>all_items = [0, 1, 2], next_items = []\<rparr>"
    by (simp add: RandomCycler_init_def)
  ultimately show ?thesis using valid_rot_shuffle by simp
qed

section \<open>Properties of the collate function\<close>

lemma fold_max_ge: "(a::int) \<le> fold max xs a \<and> (\<forall>x\<in>set xs. x \<le> fold max xs a)"
proof (induction xs arbitrary: a)
  case Nil
  then show ?case by simp
next
  case (Cons y ys)
  from Cons.IH[of "max y a"] show ?case by auto
qed

lemma py_max_nonempty:
  assumes "xs \<noteq> []"
  shows "\<exists>m. py_max xs = Inr m \<and> (\<forall>x\<in>set xs. x \<le> m)"
proof (cases xs)
  case Nil
  with assms show ?thesis by simp
next
  case (Cons a as)
  then show ?thesis using fold_max_ge[of a as] by auto
qed

lemma padded_spec_len_ok:
  assumes "spec_lens \<noteq> []" "1 \<le> r"
  shows "\<exists>L. padded_spec_len spec_lens r = Inr L \<and> L mod r = 0 \<and> (\<forall>x\<in>set spec_lens. x < L)"
proof -
  from py_max_nonempty[OF assms(1)] obtain m where
    m: "py_max spec_lens = Inr m" "\<forall>x\<in>set spec_lens. x \<le> m" by blast
  show ?thesis
  proof (cases "(m + 1) mod r = 0")
    case True
    then have "padded_spec_len spec_lens r = Inr (m + 1)"
      using m(1) assms(2) by (simp add: padded_spec_len_def Let_def)
    then show ?thesis using True m(2) by fastforce
  next
    case False
    let ?L = "m + 1 + (r - (m + 1) mod r)"
    have e: "padded_spec_len spec_lens r = Inr ?L"
      using m(1) assms(2) False by (simp add: padded_spec_len_def Let_def)
    have "(m + 1) mod r < r" using assms(2) by simp
    then have gt: "m + 1 < ?L" by simp
    have "?L = r + ((m + 1) - (m + 1) mod r)" by simp
    also have "\<dots> mod r = 0"
      by (simp add: minus_mod_eq_mult_div)
    finally have "?L mod r = 0" .
    then show ?thesis using e gt m(2) by fastforce
  qed
qed

lemma mapM_total:
  assumes "\<forall>x\<in>set xs. f x = Inr (g x)"
  shows "mapM f xs = Inr (map g xs)"
  using assms by (induction xs) auto

lemma np_stack_uniform:
  assumes "xs \<noteq> []" "\<forall>x\<in>set xs. shape x = s"
  shows "np_stack shape xs = Inr xs"
  using assms by (cases xs) (auto simp: np_stack_def list_all_iff)

text \<open>
  C10.  For a non-empty batch (of mel spectrograms with one number of channels and
  embeddings of one size, so that the arrays stack) and \<open>r \<ge> 1\<close>, \<open>collate_synthesizer\<close>
  returns, and the time length \<open>L\<close> of every padded mel spectrogram is a multiple of \<open>r\<close>
  and strictly greater than the time length of every spectrogram of the batch.
\<close>

theorem collate_mel_length:
  assumes "batch \<noteq> []" and "1 \<le> r"
    and "\<forall>x\<in>set batch. nrows (mel_spec x) = nm"
    and "\<forall>x\<in>set batch. length (speaker_embed x) = d"
  shows "\<exists>chars mel embeds indices L.
           collate_synthesizer batch r hp = Inr (chars, mel, embeds, indices)
           \<and> length mel = length batch
           \<and> list_all (\<lambda>a. int (ncols a) = L) mel
           \<and> L mod r = 0
           \<and> list_all (\<lambda>x. int (ncols (mel_spec x)) < L) batch"
proof -
  let ?xl = "map (\<lambda>x. int (length (text_seq x))) batch"
  let ?sl = "map (\<lambda>x. int (ncols (mel_spec x))) batch"
  let ?pv = "if symmetric_mels hp then - 1 * max_abs_value hp else 0"
  from py_max_nonempty[of ?xl] assms(1) obtain mx where
    mx: "py_max ?xl = Inr mx" "\<forall>x\<in>set batch. int (length (text_seq x)) \<le> mx" by auto
  define cpad where "cpad = (\<lambda>x::sample_item. text_seq x @ replicate (nat (mx - int (length (text_seq x)))) (0::int))"
  have "\<forall>x\<in>set batch. pad1d (text_seq x) mx 0 = Inr (cpad x)"
    using mx(2) by (auto simp: pad1d_def cpad_def)
  then have c0: "mapM (\<lambda>x. pad1d (text_seq x) mx 0) batch = Inr (map cpad batch)"
    by (rule mapM_total)
  have "\<forall>y\<in>set (map cpad batch). length y = nat mx"
    using mx(2) by (auto simp: cpad_def)
  then have c1: "np_stack length (map cpad batch) = Inr (map cpad batch)"
    using assms(1) by (intro np_stack_uniform) auto
  from padded_spec_len_ok[of ?sl r] assms(1,2) obtain L where
    L: "padded_spec_len ?sl r = Inr L" "L mod r = 0" "\<forall>x\<in>set batch. int (ncols (mel_spec x)) < L"
    by auto
  define mpad where "mpad = (\<lambda>x::sample_item. \<lparr>nrows = nrows (mel_spec x),
       ncols = ncols (mel_spec x) + nat (L - int (ncols (mel_spec x))),
       entry = (\<lambda>i j. if j < ncols (mel_spec x) then entry (mel_spec x) i j else ?pv)\<rparr>)"
  have "\<forall>x\<in>set batch. pad2d (mel_spec x) L ?pv = Inr (mpad x)"
    using L(3) by (auto simp: pad2d_def mpad_def)
  then have m0: "mapM (\<lambda>x. pad2d (mel_spec x) L ?pv) batch = Inr (map mpad batch)"
    by (rule mapM_total)
  have shp: "\<forall>x\<in>set batch. nrows (mpad x) = nm \<and> int (ncols (mpad x)) = L"
    using L(3) assms(3) by (auto simp: mpad_def)
  then have "\<forall>y\<in>set (map mpad batch). (nrows y, ncols y) = (nm, nat L)"
    by auto
  then have m1: "np_stack (\<lambda>a. (nrows a, ncols a)) (map mpad batch) = Inr (map mpad batch)"
    using assms(1) by (intro np_stack_uniform) auto
  have e1: "np_stack length (map speaker_embed batch) = Inr (map speaker_embed batch)"
    using assms(1,4) by (intro np_stack_uniform) auto
  have res: "collate_synthesizer batch r hp
        = Inr (map cpad batch, map mpad batch, map speaker_embed batch, map index batch)"
    unfolding collate_synthesizer_def
    by (simp only: mx(1) c0 c1 L(1) m0 m1 e1 Let_def sum.case)
  have la1: "list_all (\<lambda>a. int (ncols a) = L) (map mpad batch)"
    using shp by (simp add: list_all_iff)
  have la2: "list_all (\<lambda>x. int (ncols (mel_spec x)) < L) batch"
    using L(3) by (simp add: list_all_iff)
  have len: "length (map mpad batch) = length batch" by simp
  show ?thesis
    by (intro exI conjI) (rule res, rule len, rule la1, rule L(2), rule la2)
qed

theorem collate_mel_length_witness:
  "[item1, item2] \<noteq> [] \<and> (1::int) \<le> 5
   \<and> list_all (\<lambda>x. nrows (mel_spec x) = 2) [item1, item2]
   \<and> list_all (\<lambda>x. length (speaker_embed x) = 1) [item1, item2]
   \<and> (\<exists>chars mel embeds indices L.
           collate_synthesizer [item1, item2] 5 hp0 = Inr (chars, mel, embeds, indices)
           \<and> length mel = length [item1, item2]
           \<and> list_all (\<lambda>a. int (ncols a) = L) mel
           \<and> L mod 5 = 0
           \<and> list_all (\<lambda>x. int (ncols (mel_spec x)) < L) [item1, item2])"
proof -
  have a: "[item1, item2] \<noteq> []" by simp
  have b: "(1::int) \<le> 5" by simp
  have c: "\<forall>x\<in>set [item1, item2]. nrows (mel_spec x) = 2" by (simp add: item1_def item2_def)
  have d: "\<forall>x\<in>set [item1, item2]. length (speaker_embed x) = 1" by (simp add: item1_def item2_def)
  have c': "list_all (\<lambda>x. nrows (mel_spec x) = 2) [item1, item2]"
    by (simp add: item1_def item2_def)
  have d': "list_all (\<lambda>x. length (speaker_embed x) = 1) [item1, item2]"
    by (simp add: item1_def item2_def)
  from collate_mel_length[OF a b c d, of hp0] a b c' d' show ?thesis by blast
qed

section \<open>Properties of the normalisation\<close>

lemma fold_max_real: "(a::real) \<le> fold max xs a \<and> (\<forall>x\<in>set xs. x \<le> fold max xs a)
   \<and> (fold max xs a = a \<or> fold max xs a \<in> set xs)"
proof (induction xs arbitrary: a)
  case Nil
  then show ?case by simp
next
  case (Cons y ys)
  from Cons.IH[of "max y a"] show ?case by (auto simp: max_def split: if_splits)
qed

lemma fold_min_real: "fold min xs a \<le> (a::real) \<and> (\<forall>x\<in>set xs. fold min xs a \<le> x)
   \<and> (fold min xs a = a \<or> fold min xs a \<in> set xs)"
proof (induction xs arbitrary: a)
  case Nil
  then show ?case by simp
next
  case (Cons y ys)
  from Cons.IH[of "min y a"] show ?case by (auto simp: min_def split: if_splits)
qed

lemma np_amax_in: "S \<noteq> [] \<Longrightarrow> \<exists>m. np_amax S = Inr m \<and> m \<in> set S"
  using fold_max_real by (cases S) auto

lemma np_amin_in: "S \<noteq> [] \<Longrightarrow> \<exists>m. np_amin S = Inr m \<and> m \<in> set S"
  using fold_min_real by (cases S) auto

lemma unit_fraction:
  assumes "m < (0::real)" "m \<le> s" "s \<le> 0"
  shows "0 \<le> (s - m) / (- m) \<and> (s - m) / (- m) \<le> 1"
proof
  show "0 \<le> (s - m) / (- m)" using assms by (intro divide_nonneg_pos) auto
  have "0 < - m" using assms by simp
  from divide_le_eq_1_pos[OF this, of "s - m"] show "(s - m) / (- m) \<le> 1"
    using assms by simp
qed

lemma scale_unit:
  assumes "0 < (M::real)" "0 \<le> t" "t \<le> 1"
  shows "0 \<le> M * t \<and> M * t \<le> M"
  using assms by (simp add: mult_left_le)

lemma undo_fraction:
  assumes "m < (0::real)"
  shows "(s - m) / (- m) * - m + m = s"
  using assms by simp

lemma sym_elem:
  assumes M: "0 < (M::real)" and m: "m < 0" and s: "m \<le> s" "s \<le> 0"
  shows "np_clip ((2 * M) * ((s - m) / (- m)) - M) (- M) M = (2 * M) * ((s - m) / (- m)) - M"
    and "(((2 * M) * ((s - m) / (- m)) - M) + M) * - m / (2 * M) + m = s"
    and "(np_clip ((2 * M) * ((s - m) / (- m)) - M) (- M) M + M) * - m / (2 * M) + m = s"
    and "(np_clip (np_clip ((2 * M) * ((s - m) / (- m)) - M) (- M) M) (- M) M + M) * - m / (2 * M) + m = s"
proof -
  define t where "t = (s - m) / (- m)"
  have t: "0 \<le> t" "t \<le> 1" using unit_fraction[OF m s] by (simp_all add: t_def)
  have Mt: "0 \<le> M * t" "M * t \<le> M" using scale_unit[OF M t] by simp_all
  have c: "np_clip (2 * M * t - M) (- M) M = 2 * M * t - M"
    using Mt by (simp add: np_clip_def)
  have "(2 * M * t - M + M) * - m / (2 * M) = t * - m" using M by simp
  then have r: "(2 * M * t - M + M) * - m / (2 * M) + m = s"
    using undo_fraction[OF m, of s] by (simp add: t_def)
  show "np_clip ((2 * M) * ((s - m) / (- m)) - M) (- M) M = (2 * M) * ((s - m) / (- m)) - M"
    using c by (simp only: t_def)
  show "(((2 * M) * ((s - m) / (- m)) - M) + M) * - m / (2 * M) + m = s"
    using r by (simp only: t_def)
  show "(np_clip ((2 * M) * ((s - m) / (- m)) - M) (- M) M + M) * - m / (2 * M) + m = s"
    using r c by (simp only: t_def)
  show "(np_clip (np_clip ((2 * M) * ((s - m) / (- m)) - M) (- M) M) (- M) M + M) * - m / (2 * M) + m = s"
    using r c by (simp only: t_def)
qed

lemma asym_elem:
  assumes M: "0 < (M::real)" and m: "m < 0" and s: "m \<le> s" "s \<le> 0"
  shows "(M * ((s - m) / (- m))) * - m / M + m = s"
    and "np_clip (np_clip (M * ((s - m) / (- m))) 0 M) 0 M * - m / M + m = s"
proof -
  define t where "t = (s - m) / (- m)"
  have t: "0 \<le> t" "t \<le> 1" using unit_fraction[OF m s] by (simp_all add: t_def)
  have Mt: "0 \<le> M * t" "M * t \<le> M" using scale_unit[OF M t] by simp_all
  have c: "np_clip (M * t) 0 M = M * t"
    using Mt by (simp add: np_clip_def)
  have "M * t * - m / M = t * - m" using M by simp
  then have r: "M * t * - m / M + m = s"
    using undo_fraction[OF m, of s] by (simp add: t_def)
  show "(M * ((s - m) / (- m))) * - m / M + m = s"
    using r by (simp only: t_def)
  show "np_clip (np_clip (M * ((s - m) / (- m))) 0 M) 0 M * - m / M + m = s"
    using r c by (simp only: t_def)
qed

lemma map_roundtrip: "(\<And>s. s \<in> set S \<Longrightarrow> g (f s) = s) \<Longrightarrow> map g (map f S) = S"
  by (induction S) auto

text \<open>
  C7.  For a decibel spectrogram \<open>S\<close> with every value in \<open>[min_level_db, 0]\<close>, and
  \<open>max_abs_value > 0\<close>, \<open>min_level_db < 0\<close>, in each of the four configurations
  (symmetric or not, clipping allowed or not): \<open>_normalize\<close> returns, and
  \<open>_denormalize\<close> of its result is \<open>S\<close> again (exactly, over the real numbers).  Without
  clipping \<open>S\<close> must have an entry, since \<open>S.max()\<close> raises on an empty array.
\<close>

theorem denormalize_normalize:
  assumes ne: "allow_clipping_in_normalization hp \<or> S \<noteq> []"
    and rng: "\<forall>s\<in>set S. min_level_db hp \<le> s \<and> s \<le> 0"
    and M: "0 < max_abs_value hp" and m: "min_level_db hp < 0"
  shows "\<exists>D. u_normalize S hp = Inr D \<and> u_denormalize D hp = S"
proof (cases "allow_clipping_in_normalization hp")
  case True
  show ?thesis
  proof (cases "symmetric_mels hp")
    case sym: True
    show ?thesis
      unfolding u_normalize_def u_denormalize_def
      apply (simp only: True sym if_True)
      apply (rule exI, rule conjI, rule refl)
      apply (rule map_roundtrip)
      using rng sym_elem(4)[OF M m] apply blast
      done
  next
    case asym: False
    show ?thesis
      unfolding u_normalize_def u_denormalize_def
      apply (simp only: True asym if_True if_False)
      apply (rule exI, rule conjI, rule refl)
      apply (rule map_roundtrip)
      using rng asym_elem(2)[OF M m] apply blast
      done
  qed
next
  case False
  with ne have "S \<noteq> []" by simp
  from np_amax_in[OF this] np_amin_in[OF \<open>S \<noteq> []\<close>] obtain smax smin where
    mm: "np_amax S = Inr smax" "smax \<in> set S" "np_amin S = Inr smin" "smin \<in> set S" by blast
  then have ok: "smax \<le> 0" "smin - min_level_db hp \<ge> 0" using rng by auto
  show ?thesis
  proof (cases "symmetric_mels hp")
    case sym: True
    show ?thesis
      unfolding u_normalize_def u_denormalize_def
      apply (simp only: False sym mm(1,3) ok if_True if_False sum.case not_True_eq_False)
      apply (rule exI, rule conjI, rule refl)
      apply (rule map_roundtrip)
      using rng sym_elem(2)[OF M m] apply blast
      done
  next
    case asym: False
    show ?thesis
      unfolding u_normalize_def u_denormalize_def
      apply (simp only: False asym mm(1,3) ok if_True if_False sum.case not_True_eq_False)
      apply (rule exI, rule conjI, rule refl)
      apply (rule map_roundtrip)
      using rng asym_elem(1)[OF M m] apply blast
      done
  qed
qed

theorem denormalize_normalize_witness:
  "(allow_clipping_in_normalization hp1 \<or> [- 100, - 25, 0 :: real] \<noteq> [])
   \<and> list_all (\<lambda>s. min_level_db hp1 \<le> s \<and> s \<le> 0) [- 100, - 25, 0 :: real]
   \<and> 0 < max_abs_value hp1 \<and> min_level_db hp1 < 0
   \<and> (\<exists>D. u_normalize [- 100, - 25, 0] hp1 = Inr D \<and> u_denormalize D hp1 = [- 100, - 25, 0])"
proof -
  have a: "allow_clipping_in_normalization hp1 \<or> [- 100, - 25, 0 :: real] \<noteq> []" by simp
  have b: "\<forall>s\<in>set [- 100, - 25, 0 :: real]. min_level_db hp1 \<le> s \<and> s \<le> 0"
    by (simp add: hp1_def)
  have c: "0 < max_abs_value hp1" by (simp add: hp1_def)
  have d: "min_level_db hp1 < 0" by (simp add: hp1_def)
  have b': "list_all (\<lambda>s. min_level_db hp1 \<le> s \<and> s \<le> 0) [- 100, - 25, 0 :: real]"
    by (simp add: hp1_def)
  from denormalize_normalize[OF a b c d] a b' c d show ?thesis by blast
qed

section \<open>Properties of the location-sensitive attention\<close>

lemma concat_singletons: "concat (map (\<lambda>row. [row]) xs) = xs"
  by (induction xs) auto

lemma ew2_shape:
  assumes "ew2 f a b = Inr c"
  shows "c = map2 (map2 f) a b \<and> map length a = map length b \<and> map length c = map length a"
proof -
  from assms have e: "map length a = map length b" "c = map2 (map2 f) a b"
    by (auto simp: ew2_def split: if_splits)
  have "map length (map2 (map2 f) a b) = map length a" using e(1)
  proof (induction a arbitrary: b)
    case Nil
    then show ?case by simp
  next
    case (Cons x xs)
    then show ?case by (cases b) auto
  qed
  with e show ?thesis by simp
qed

lemma LSA_forward_cases:
  assumes "LSA_forward A enc q t chars = Inr (scores, A')"
  shows "\<exists>c. cumulative (if t = 0 then init_attention A enc else A) = Some c
           \<and> cumulative A' = Some (add2 c (concat scores))
           \<and> attention A' = Some (concat scores)
           \<and> map length (concat scores) = map length c
           \<and> energy A' = energy A"
proof -
  let ?A1 = "if t = 0 then init_attention A enc else A"
  from assms obtain c where c: "cumulative ?A1 = Some c"
    by (cases "cumulative ?A1") (auto simp: LSA_forward_def Let_def)
  let ?u = "energy ?A1 enc q c"
  from assms c obtain u' where u': "ew2 (*) ?u (map (map (\<lambda>c. if c \<noteq> 0 then 1 else 0)) chars) = Inr u'"
    by (cases "ew2 (*) ?u (map (map (\<lambda>c. if c \<noteq> 0 then 1 else 0)) chars)")
       (auto simp: LSA_forward_def Let_def)
  from assms c u' obtain c' where c': "ew2 (+) c (map softmax u') = Inr c'"
    by (cases "ew2 (+) c (map softmax u')") (auto simp: LSA_forward_def Let_def)
  from assms c u' c' have r: "scores = map (\<lambda>row. [row]) (map softmax u')"
      "A' = ?A1\<lparr>cumulative := Some c', attention := Some (map softmax u')\<rparr>"
    by (auto simp: LSA_forward_def Let_def)
  have cs: "concat scores = map softmax u'" using r(1) concat_singletons by metis
  from ew2_shape[OF c'] have "c' = add2 c (map softmax u')" "map length c = map length (map softmax u')"
    by (auto simp: add2_def)
  moreover have "energy ?A1 = energy A" by (simp add: init_attention_def Let_def)
  ultimately show ?thesis using c r(2) cs by auto
qed

lemma add2_shape: "map length a = map length b \<Longrightarrow> map length (add2 a b) = map length a"
proof (induction a arbitrary: b)
  case Nil
  then show ?case by (simp add: add2_def)
next
  case (Cons x xs)
  then show ?case by (cases b) (auto simp: add2_def)
qed

lemma LSA_steps_accumulate:
  "LSA_steps A calls = Inr (ws, A') \<Longrightarrow> list_all (\<lambda>(enc, q, t, chars). t \<noteq> 0) calls
     \<Longrightarrow> cumulative A = Some c
     \<Longrightarrow> cumulative A' = Some (foldl add2 c ws) \<and> list_all (\<lambda>w. map length w = map length c) ws"
proof (induction calls arbitrary: A c ws)
  case Nil
  then show ?case by simp
next
  case (Cons call calls)
  obtain enc q t chars where call: "call = (enc, q, t, chars)" by (cases call) auto
  from Cons.prems(1) call obtain scores A1 where
    f: "LSA_forward A enc q t chars = Inr (scores, A1)"
    by (cases "LSA_forward A enc q t chars") (auto split: sum.splits)
  from Cons.prems(1) call f obtain ws1 where
    s: "LSA_steps A1 calls = Inr (ws1, A')" "ws = concat scores # ws1"
    by (cases "LSA_steps A1 calls") (auto split: sum.splits)
  have t: "t \<noteq> 0" and rest: "list_all (\<lambda>(enc, q, t, chars). t \<noteq> 0) calls"
    using Cons.prems(2) call by auto
  from LSA_forward_cases[OF f] t Cons.prems(3) have
    c1: "cumulative A1 = Some (add2 c (concat scores))" "map length (concat scores) = map length c"
    by auto
  from Cons.IH[OF s(1) rest c1(1)] have
    ih: "cumulative A' = Some (foldl add2 (add2 c (concat scores)) ws1)"
        "list_all (\<lambda>w. map length w = map length (add2 c (concat scores))) ws1"
    by auto
  have "map length (add2 c (concat scores)) = map length c"
    using add2_shape[of c "concat scores"] c1(2) by simp
  then show ?case using ih s(2) c1(2) by simp
qed

text \<open>
  C6.  Take calls of \<open>forward\<close> on one attention object, all but the first with
  \<open>t \<noteq> 0\<close>, that return.  If the first call has \<open>t = 0\<close>, the accumulator ends as the
  entrywise sum of the attention weights of all the calls, starting from zeros of shape
  \<open>(b, T)\<close>: the call with \<open>t = 0\<close> resets it.  If the first call has \<open>t \<noteq> 0\<close> too, the
  accumulator ends as its old value plus the weights of all the calls: no call with
  \<open>t \<noteq> 0\<close> clears it.  All the weights have the accumulator's shape.
\<close>

theorem LSA_cumulative_is_sum:
  assumes "LSA_steps A ((enc, q, t, chars) # calls) = Inr (ws, A')"
    and "list_all (\<lambda>(enc, q, t, chars). t \<noteq> 0) calls"
  shows "(t = 0 \<longrightarrow>
            cumulative A' = Some (foldl add2 (zeros2 (length enc) (case enc of [] \<Rightarrow> 0 | m # _ \<Rightarrow> length m)) ws)
            \<and> list_all (\<lambda>w. map length w
                  = map length (zeros2 (length enc) (case enc of [] \<Rightarrow> 0 | m # _ \<Rightarrow> length m))) ws)
       \<and> (t \<noteq> 0 \<longrightarrow>
            (\<exists>c. cumulative A = Some c \<and> cumulative A' = Some (foldl add2 c ws)
                \<and> list_all (\<lambda>w. map length w = map length c) ws))"
proof -
  from assms(1) obtain scores A1 where
    f: "LSA_forward A enc q t chars = Inr (scores, A1)"
    by (cases "LSA_forward A enc q t chars") (auto split: sum.splits)
  from assms(1) f obtain ws1 where
    s: "LSA_steps A1 calls = Inr (ws1, A')" "ws = concat scores # ws1"
    by (cases "LSA_steps A1 calls") (auto split: sum.splits)
  from LSA_forward_cases[OF f] obtain c where
    c: "cumulative (if t = 0 then init_attention A enc else A) = Some c"
       "cumulative A1 = Some (add2 c (concat scores))" "map length (concat scores) = map length c"
    by blast
  from LSA_steps_accumulate[OF s(1) assms(2) c(2)] have
    ih: "cumulative A' = Some (foldl add2 (add2 c (concat scores)) ws1)"
        "list_all (\<lambda>w. map length w = map length (add2 c (concat scores))) ws1"
    by auto
  have "map length (add2 c (concat scores)) = map length c"
    using add2_shape[of c "concat scores"] c(3) by simp
  then have r: "cumulative A' = Some (foldl add2 c ws)"
      "list_all (\<lambda>w. map length w = map length c) ws"
    using ih s(2) c(3) by simp_all
  show ?thesis
  proof (cases "t = 0")
    case True
    then have "c = zeros2 (length enc) (case enc of [] \<Rightarrow> 0 | m # _ \<Rightarrow> length m)"
      using c(1) by (simp add: init_attention_def Let_def)
    then show ?thesis using r True by simp
  next
    case False
    then have "cumulative A = Some c" using c(1) by simp
    then show ?thesis using r False by blast
  qed
qed

theorem LSA_cumulative_is_sum_witness:
  "LSA_steps A0 [([[[ln 3], [7]]], [[0]], 0, [[5, 0]]), ([[[ln 3], [7]]], [[0]], 5, [[5, 0]])]
     = Inr ([[[3 / 4, 1 / 4]], [[3 / 4, 1 / 4]]],
            A0\<lparr>cumulative := Some [[3 / 2, 1 / 2]], attention := Some [[3 / 4, 1 / 4]]\<rparr>)
   \<and> list_all (\<lambda>(enc, q, t, chars). t \<noteq> 0) [([[[ln 3], [7 :: real]]], [[0 :: real]], 5 :: nat, [[5, 0 :: int]])]
   \<and> cumulative (A0\<lparr>cumulative := Some [[3 / 2, 1 / 2]], attention := Some [[3 / 4, 1 / 4]]\<rparr>)
       = Some (foldl add2 (zeros2 1 2) [[[3 / 4, 1 / 4]], [[3 / 4, 1 / 4]]])"
proof -
  have run: "LSA_steps A0 [([[[ln 3], [7]]], [[0]], 0, [[5, 0]]), ([[[ln 3], [7]]], [[0]], 5, [[5, 0]])]
     = Inr ([[[3 / 4, 1 / 4]], [[3 / 4, 1 / 4]]],
            A0\<lparr>cumulative := Some [[3 / 2, 1 / 2]], attention := Some [[3 / 4, 1 / 4]]\<rparr>)"
    by (simp add: LSA_forward_def A0_def init_attention_def zeros2_def ew2_def softmax_def Let_def)
  have nz: "list_all (\<lambda>(enc, q, t, chars). t \<noteq> 0) [([[[ln 3], [7 :: real]]], [[0 :: real]], 5 :: nat, [[5, 0 :: int]])]"
    by simp
  have z: "zeros2 (length [[[ln 3], [7 :: real]]]) (case [[[ln 3], [7 :: real]]] of [] \<Rightarrow> 0 | m # _ \<Rightarrow> length m)
           = zeros2 1 2"
    by (simp add: numeral_2_eq_2)
  from LSA_cumulative_is_sum[OF run nz]
  have "cumulative (A0\<lparr>cumulative := Some [[3 / 2, 1 / 2]], attention := Some [[3 / 4, 1 / 4]]\<rparr>)
       = Some (foldl add2 (zeros2 1 2) [[[3 / 4, 1 / 4]], [[3 / 4, 1 / 4]]])"
    unfolding z by blast
  with run nz show ?thesis by blast
qed

text \<open>
  Over the real numbers every weight of a softmax is positive, and the weights of a row
  sum to \<open>1\<close> over all its positions, whatever the mask was.
\<close>

lemma sum_list_exp_pos: "u \<noteq> [] \<Longrightarrow> 0 < sum_list (map exp (u :: real list))"
proof (induction u)
  case Nil
  then show ?case by simp
next
  case (Cons a u)
  have "0 \<le> sum_list (map exp u)" by (rule sum_list_nonneg) auto
  then show ?case by (simp add: add_pos_nonneg)
qed

lemma sum_list_scaled: "sum_list (map (\<lambda>x. f x / z) u) = sum_list (map f u) / (z :: real)"
  by (induction u) (simp_all add: add_divide_distrib)

lemma softmax_positive: "w \<in> set (softmax u) \<Longrightarrow> 0 < w"
proof -
  assume "w \<in> set (softmax u)"
  then obtain x where "x \<in> set u" "w = exp x / sum_list (map exp u)"
    by (auto simp: softmax_def)
  moreover from this have "0 < sum_list (map exp u)" by (intro sum_list_exp_pos) auto
  ultimately show ?thesis by simp
qed

lemma softmax_sums_to_one: "u \<noteq> [] \<Longrightarrow> sum_list (softmax u) = 1"
  using sum_list_exp_pos[of u] by (simp add: softmax_def sum_list_scaled)

text \<open>
  C1.  The masking multiplies the energies by the mask before the softmax, so a padding
  position gets the energy \<open>0\<close> and the weight \<open>exp 0 / Z\<close>, which is not \<open>0\<close>.  With one
  sequence of two positions, energies \<open>ln 3\<close> and \<open>7\<close>, and the second character the
  padding index \<open>0\<close>: the weights are \<open>3/4\<close> at the valid position and \<open>1/4\<close> at the padding
  position.  The weights over the valid positions sum to \<open>3/4\<close>, not to \<open>1\<close>.
\<close>

theorem LSA_forward_weight_on_padding:
  "LSA_forward A0 [[[ln 3], [7]]] [[0]] 0 [[5, 0]]
     = Inr ([[[3 / 4, 1 / 4]]],
            A0\<lparr>cumulative := Some [[3 / 4, 1 / 4]], attention := Some [[3 / 4, 1 / 4]]\<rparr>)"
  by (simp add: LSA_forward_def A0_def init_attention_def zeros2_def ew2_def softmax_def Let_def)

section \<open>Properties of the decoder step\<close>

lemma bind_exc_Inr: "(bind_exc m f = Inr y) = (\<exists>a. m = Inr a \<and> f a = Inr y)"
  by (cases m) (auto simp: bind_exc_def)

lemma length_chunks: "length (chunks n k xs) = n"
  by (induction n arbitrary: xs) auto

lemma chunks_pieces:
  "n * k \<le> length xs \<Longrightarrow> list_all (\<lambda>p. length p = k) (chunks n k xs)"
proof (induction n arbitrary: xs)
  case 0
  then show ?case by simp
next
  case (Suc n)
  then have "k \<le> length xs" "n * k \<le> length (drop k xs)" by auto
  with Suc.IH[of "drop k xs"] show ?case by simp
qed

lemma view3_shape:
  assumes "view3 x a b c = Inr v"
  shows "length v = a \<and> list_all (\<lambda>m. length m = b \<and> list_all (\<lambda>row. length row = c) m) v"
proof -
  from assms have len: "length (concat x) = a * b * c"
    and v: "v = chunks a b (chunks (a * b) c (concat x))"
    by (auto simp: view3_def split: if_splits)
  let ?rows = "chunks (a * b) c (concat x)"
  have rows: "list_all (\<lambda>row. length row = c) ?rows" "length ?rows = a * b"
    using len by (simp_all add: chunks_pieces length_chunks)
  have grp: "list_all (\<lambda>m. length m = b) (chunks a b ?rows)"
    using rows(2) by (simp add: chunks_pieces)
  have sub: "\<And>n k (ys :: real list list). list_all (\<lambda>row. length row = c) ys
      \<Longrightarrow> list_all (list_all (\<lambda>row. length row = c)) (chunks n k ys)"
  proof -
    fix n k and ys :: "real list list"
    show "list_all (\<lambda>row. length row = c) ys
      \<Longrightarrow> list_all (list_all (\<lambda>row. length row = c)) (chunks n k ys)"
    proof (induction n arbitrary: ys)
      case 0
      then show ?case by simp
    next
      case (Suc n)
      have "list_all (\<lambda>row. length row = c) (take k ys)" "list_all (\<lambda>row. length row = c) (drop k ys)"
        using Suc.prems by (auto simp: list_all_iff dest: in_set_takeD in_set_dropD)
      with Suc.IH[of "drop k ys"] show ?case by simp
    qed
  qed
  from sub[OF rows(1), of a b] grp have
    "list_all (\<lambda>m. length m = b \<and> list_all (\<lambda>row. length row = c) m) (chunks a b ?rows)"
    by (simp add: list_all_iff)
  then show ?thesis using v by (simp add: length_chunks)
qed

lemma Decoder_forward_mels:
  assumes "Decoder_forward D enc encp pin hs cs ctx t chars
             = Inr ((mels, scores, hs', cs', ctx', stop_tokens), D')"
  shows "\<exists>x mels0 A'. view3 (mel_proj D x) (length enc) (n_mels D) max_r = Inr mels0
           \<and> mels = map (map (take (cur_r D))) mels0 \<and> D' = D\<lparr>attn_net := A'\<rparr>"
  using assms unfolding Decoder_forward_def Let_def bind_exc_Inr by blast

lemma bind_exc_simps: "bind_exc (Inr a) f = f a" "bind_exc (Inl e) f = Inl e"
  by (simp_all add: bind_exc_def)

lemma sigmoid_ln3: "sigmoid (ln 3) = 3 / 4"
  by (simp add: sigmoid_def exp_minus)

lemma view0: "view3 [replicate (2 * max_r) 0] (Suc 0) 2 max_r = Inr [[replicate 20 0, replicate 20 0]]"
proof -
  have "chunks (Suc (Suc 0)) 20 (replicate 40 (0::real)) = [replicate 20 0, replicate 20 0]"
    by (simp add: min_def)
  then show ?thesis
    by (simp add: view3_def max_r_def numeral_2_eq_2)
qed

lemma D0_step:
  assumes "length pin = 1" "t = 0 \<or> cum = Some [[c]]"
  shows "Decoder_forward ((D0 r)\<lparr>attn_net := A0\<lparr>cumulative := cum, attention := a\<rparr>\<rparr>)
           [[[0]]] [[[0]]] pin ([[0]], [[0]], [[0]]) ([[0]], [[0]]) [[0]] t [[1]]
         = Inr ((frames0 r, [[[1]]], ([[0]], [[0]], [[0]]), ([[0]], [[0]]), [[0]], [[3 / 4]]),
                (D0 r)\<lparr>attn_net := A0\<lparr>cumulative := Some [[(if t = 0 then 0 else c) + 1]],
                                        attention := Some [[1]]\<rparr>\<rparr>)"
proof -
  obtain p where pin: "pin = [p]" using assms(1) by (cases pin) auto
  have lsa: "LSA_forward (A0\<lparr>cumulative := cum, attention := a\<rparr>) [[[0]]] [[0]] t [[1]]
       = Inr ([[[1]]], A0\<lparr>cumulative := Some [[(if t = 0 then 0 else c) + 1]], attention := Some [[1]]\<rparr>)"
    using assms(2)
    by (auto simp: LSA_forward_def A0_def init_attention_def zeros2_def ew2_def softmax_def Let_def)
  show ?thesis
    unfolding Decoder_forward_def Let_def
    by (simp add: D0_def pin cat_last_def bind_exc_simps lsa bmm_squeeze_def vec_mat_def
          ew2_def view0 frames0_def sigmoid_ln3)
qed


lemma D0_norm:
  "(D0 r)\<lparr>training := False\<rparr> = (D0 r)\<lparr>attn_net := A0\<lparr>cumulative := None, attention := None\<rparr>\<rparr>"
  by (simp add: D0_def A0_def)

lemma D0_sel: "cur_r ((D0 r)\<lparr>attn_net := A\<rparr>) = r" "n_mels ((D0 r)\<lparr>attn_net := A\<rparr>) = 2"
  by (simp_all add: D0_def)

lemma D0_step0:
  "length pin = 1 \<Longrightarrow>
   Decoder_forward ((D0 r)\<lparr>attn_net := A0\<lparr>cumulative := cum, attention := a\<rparr>\<rparr>)
           [[[0]]] [[[0]]] pin ([[0]], [[0]], [[0]]) ([[0]], [[0]]) [[0]] 0 [[1]]
         = Inr ((frames0 r, [[[1]]], ([[0]], [[0]], [[0]]), ([[0]], [[0]]), [[0]], [[3 / 4]]),
                (D0 r)\<lparr>attn_net := A0\<lparr>cumulative := Some [[1]], attention := Some [[1]]\<rparr>\<rparr>)"
  using D0_step[where pin=pin and t=0 and cum=cum and c=0 and r=r and a=a] by simp

lemma D0_stepS:
  "length pin = 1 \<Longrightarrow> t \<noteq> 0 \<Longrightarrow>
   Decoder_forward ((D0 r)\<lparr>attn_net := A0\<lparr>cumulative := Some [[c]], attention := a\<rparr>\<rparr>)
           [[[0]]] [[[0]]] pin ([[0]], [[0]], [[0]]) ([[0]], [[0]]) [[0]] t [[1]]
         = Inr ((frames0 r, [[[1]]], ([[0]], [[0]], [[0]]), ([[0]], [[0]]), [[0]], [[3 / 4]]),
                (D0 r)\<lparr>attn_net := A0\<lparr>cumulative := Some [[c + 1]], attention := Some [[1]]\<rparr>\<rparr>)"
  using D0_step[where pin=pin and t=t and cum="Some [[c]]" and c=c and r=r and a=a] by simp

text \<open>
  C9.  When a decoder step returns and the reduction factor \<open>r\<close> is between 1 and 20
  (\<open>max_r\<close>), the frame group it emits has shape \<open>(batch_size, n_mels, r)\<close>, where
  \<open>batch_size\<close> is the first dimension of the encoder output.
\<close>

theorem Decoder_forward_frame_group_shape:
  assumes "Decoder_forward D encoder_seq encoder_seq_proj prenet_in hidden cell context t chars
             = Inr ((mels, scores, hidden', cell', context', stop_tokens), D')"
    and "1 \<le> cur_r D" and "cur_r D \<le> 20"
  shows "length mels = length encoder_seq
       \<and> list_all (\<lambda>m. length m = n_mels D \<and> list_all (\<lambda>row. length row = cur_r D) m) mels"
proof -
  from Decoder_forward_mels[OF assms(1)] obtain x mels0 where
    v: "view3 (mel_proj D x) (length encoder_seq) (n_mels D) max_r = Inr mels0"
    and m: "mels = map (map (take (cur_r D))) mels0" by blast
  from view3_shape[OF v] have
    s: "length mels0 = length encoder_seq"
       "list_all (\<lambda>m. length m = n_mels D \<and> list_all (\<lambda>row. length row = max_r) m) mels0"
    by auto
  have "list_all (\<lambda>m. length m = n_mels D \<and> list_all (\<lambda>row. length row = cur_r D) m) mels"
    using s(2) assms(3) unfolding m by (auto simp: list_all_iff max_r_def)
  then show ?thesis using s(1) m by simp
qed

theorem Decoder_forward_frame_group_shape_witness:
  "Decoder_forward (D0 5) [[[0]]] [[[0]]] [[0, 0]] ([[0]], [[0]], [[0]]) ([[0]], [[0]]) [[0]] 0 [[1]]
     = Inr ((frames0 5, [[[1]]], ([[0]], [[0]], [[0]]), ([[0]], [[0]]), [[0]], [[3 / 4]]),
            (D0 5)\<lparr>attn_net := A0\<lparr>cumulative := Some [[1]], attention := Some [[1]]\<rparr>\<rparr>)
   \<and> 1 \<le> cur_r (D0 5) \<and> cur_r (D0 5) \<le> 20
   \<and> frames0 5 = [[[0, 0, 0, 0, 0], [0, 0, 0, 0, 0]]]
   \<and> length (frames0 5) = length [[[0 :: real]]]
   \<and> list_all (\<lambda>m. length m = n_mels (D0 5) \<and> list_all (\<lambda>row. length row = cur_r (D0 5)) m)
        (frames0 5)"
proof -
  have e: "D0 5 = (D0 5)\<lparr>attn_net := A0\<lparr>cumulative := None, attention := None\<rparr>\<rparr>"
    by (simp add: D0_def A0_def)
  have run: "Decoder_forward (D0 5) [[[0]]] [[[0]]] [[0, 0]] ([[0]], [[0]], [[0]]) ([[0]], [[0]]) [[0]] 0 [[1]]
     = Inr ((frames0 5, [[[1]]], ([[0]], [[0]], [[0]]), ([[0]], [[0]]), [[0]], [[3 / 4]]),
            (D0 5)\<lparr>attn_net := A0\<lparr>cumulative := Some [[1]], attention := Some [[1]]\<rparr>\<rparr>)"
    by (subst e) (simp add: D0_step0)
  have r1: "1 \<le> cur_r (D0 5)" and r2: "cur_r (D0 5) \<le> 20" by (simp_all add: D0_def)
  have f: "frames0 5 = [[[0, 0, 0, 0, 0], [0, 0, 0, 0, 0]]]"
    by (simp add: frames0_def eval_nat_numeral)
  from Decoder_forward_frame_group_shape[OF run r1 r2] run r1 r2 f show ?thesis by blast
qed

section \<open>Properties of the decoder loop of generate\<close>

lemma Decoder_forward_keeps:
  assumes "Decoder_forward D enc encp pin hs cs ctx t chars = Inr (out, D')"
  shows "cur_r D' = cur_r D \<and> n_mels D' = n_mels D"
proof -
  from assms obtain A' where "D' = D\<lparr>attn_net := A'\<rparr>"
    unfolding Decoder_forward_def Let_def bind_exc_Inr by blast
  then show ?thesis by simp
qed

lemma generate_loop_trace:
  "generate_loop enc encp x go ts st = Inr st' \<Longrightarrow>
     \<exists>toks. length toks \<le> length ts
       \<and> length (mel_outputs st') = length (mel_outputs st) + length toks
       \<and> stop_outputs st' = stop_outputs st @ concat (map (replicate (cur_r (dec st))) toks)
       \<and> cur_r (dec st') = cur_r (dec st)
       \<and> (\<forall>k < length toks - 1. \<not> break_cond (toks ! k) (ts ! k))
       \<and> (length toks < length ts \<longrightarrow> toks \<noteq> [] \<and> break_cond (last toks) (ts ! (length toks - 1)))
       \<and> (ts \<noteq> [] \<longrightarrow> toks \<noteq> [])"
proof (induction ts arbitrary: st)
  case Nil
  then show ?case by simp
next
  case (Cons t ts)
  let ?pin = "if t > 0 then last_frame (mel_outputs st) else Inr go"
  from Cons.prems obtain pin where pin: "?pin = Inr pin"
    by (cases ?pin) auto
  let ?fw = "Decoder_forward (dec st) enc encp pin (hidden_states st) (cell_states st) (context_vec st) t x"
  from Cons.prems pin obtain out D' where fw: "?fw = Inr (out, D')"
    by (cases ?fw) auto
  obtain mf sc hs cs ctx tok where out: "out = (mf, sc, hs, cs, ctx, tok)"
    by (cases out) auto
  define st1 where "st1 = \<lparr>dec = D', hidden_states = hs, cell_states = cs, context_vec = ctx,
       mel_outputs = mel_outputs st @ [mf], attn_scores = attn_scores st @ [sc],
       stop_outputs = stop_outputs st @ replicate (cur_r (dec st)) tok\<rparr>"
  have r: "cur_r D' = cur_r (dec st)" using Decoder_forward_keeps[OF fw] by simp
  have res: "(if break_cond tok t then Inr st1 else generate_loop enc encp x go ts st1) = Inr st'"
    using Cons.prems pin fw out by (auto simp: st1_def Let_def split: if_splits)
  show ?case
  proof (cases "break_cond tok t")
    case True
    then have "st' = st1" using res by simp
    then have "length [tok] \<le> length (t # ts)
       \<and> length (mel_outputs st') = length (mel_outputs st) + length [tok]
       \<and> stop_outputs st' = stop_outputs st @ concat (map (replicate (cur_r (dec st))) [tok])
       \<and> cur_r (dec st') = cur_r (dec st)
       \<and> (\<forall>k < length [tok] - 1. \<not> break_cond ([tok] ! k) ((t # ts) ! k))
       \<and> (length [tok] < length (t # ts) \<longrightarrow> [tok] \<noteq> [] \<and> break_cond (last [tok]) ((t # ts) ! (length [tok] - 1)))
       \<and> (t # ts \<noteq> [] \<longrightarrow> [tok] \<noteq> [])"
      using True r by (simp add: st1_def)
    then show ?thesis by blast
  next
    case False
    then have "generate_loop enc encp x go ts st1 = Inr st'" using res by simp
    from Cons.IH[OF this] obtain toks where
      ih: "length toks \<le> length ts"
          "length (mel_outputs st') = length (mel_outputs st1) + length toks"
          "stop_outputs st' = stop_outputs st1 @ concat (map (replicate (cur_r (dec st1))) toks)"
          "cur_r (dec st') = cur_r (dec st1)"
          "\<forall>k < length toks - 1. \<not> break_cond (toks ! k) (ts ! k)"
          "length toks < length ts \<longrightarrow> toks \<noteq> [] \<and> break_cond (last toks) (ts ! (length toks - 1))"
          "ts \<noteq> [] \<longrightarrow> toks \<noteq> []"
      by blast
    have d1: "cur_r (dec st1) = cur_r (dec st)" using r by (simp add: st1_def)
    have a: "length (tok # toks) \<le> length (t # ts)" using ih(1) by simp
    have b: "length (mel_outputs st') = length (mel_outputs st) + length (tok # toks)"
      using ih(2) by (simp add: st1_def)
    have c: "stop_outputs st' = stop_outputs st @ concat (map (replicate (cur_r (dec st))) (tok # toks))"
      using ih(3) d1 by (simp add: st1_def)
    have d: "cur_r (dec st') = cur_r (dec st)" using ih(4) d1 by simp
    have e: "\<forall>k < length (tok # toks) - 1. \<not> break_cond ((tok # toks) ! k) ((t # ts) ! k)"
    proof (intro allI impI)
      fix k assume k: "k < length (tok # toks) - 1"
      show "\<not> break_cond ((tok # toks) ! k) ((t # ts) ! k)"
      proof (cases k)
        case 0
        then show ?thesis using False by simp
      next
        case (Suc j)
        then have "j < length toks - 1" using k by simp
        then show ?thesis using ih(5) Suc by simp
      qed
    qed
    have f: "length (tok # toks) < length (t # ts) \<longrightarrow>
             tok # toks \<noteq> [] \<and> break_cond (last (tok # toks)) ((t # ts) ! (length (tok # toks) - 1))"
    proof
      assume "length (tok # toks) < length (t # ts)"
      then have lt: "length toks < length ts" by simp
      with ih(6) have ne: "toks \<noteq> []" and bc: "break_cond (last toks) (ts ! (length toks - 1))"
        by auto
      have "(t # ts) ! (length (tok # toks) - 1) = ts ! (length toks - 1)"
        using ne by (cases toks) auto
      then show "tok # toks \<noteq> [] \<and> break_cond (last (tok # toks)) ((t # ts) ! (length (tok # toks) - 1))"
        using ne bc by simp
    qed
    from a b c d e f show ?thesis by blast
  qed
qed


lemma ceil_div_le: "0 < r \<Longrightarrow> (n + r - 1) div r \<le> (n::nat)"
proof -
  assume r: "0 < r"
  have "n + r - 1 < (n + 1) * r"
  proof (cases n)
    case 0
    then show ?thesis using r by simp
  next
    case (Suc m)
    have "Suc m * 1 \<le> Suc m * r" using r by (intro mult_le_mono2) simp
    then have "Suc m \<le> r + m * r" by simp
    then show ?thesis using Suc r by (simp add: algebra_simps)
  qed
  then have "(n + r - 1) div r < n + 1" using r by (simp add: less_mult_imp_div_less)
  then show ?thesis by simp
qed

lemma generate_decode_trace:
  assumes "generate_decode M x se steps = Inr st"
  shows "0 < cur_r (decoder M) \<and> (\<exists>toks.
       length toks \<le> (nat steps + cur_r (decoder M) - 1) div cur_r (decoder M)
     \<and> length (mel_outputs st) = length toks
     \<and> stop_outputs st = concat (map (replicate (cur_r (decoder M))) toks)
     \<and> (\<forall>k < length toks - 1. \<not> break_cond (toks ! k) (k * cur_r (decoder M)))
     \<and> (length toks < (nat steps + cur_r (decoder M) - 1) div cur_r (decoder M) \<longrightarrow>
           toks \<noteq> [] \<and> break_cond (last toks) ((length toks - 1) * cur_r (decoder M))))"
proof -
  define r where "r = cur_r (decoder M)"
  define N where "N = (nat steps + r - 1) div r"
  define ts where "ts = map (\<lambda>k. k * r) [0..<N]"
  have rpos: "0 < r"
    using assms by (auto simp: generate_decode_def Let_def py_range_def r_def split: if_splits)
  then have rng: "py_range steps (cur_r ((decoder M)\<lparr>training := False\<rparr>)) = Inr ts"
    by (simp add: py_range_def ts_def N_def r_def)
  from assms obtain st0 enc encp go where
    loop: "generate_loop enc encp x go ts st0 = Inr st"
    and st0: "mel_outputs st0 = []" "stop_outputs st0 = []" "cur_r (dec st0) = r"
    unfolding generate_decode_def Let_def rng by (auto simp: r_def)
  from generate_loop_trace[OF loop] obtain toks where
    t: "length toks \<le> length ts"
       "length (mel_outputs st) = length (mel_outputs st0) + length toks"
       "stop_outputs st = stop_outputs st0 @ concat (map (replicate (cur_r (dec st0))) toks)"
       "\<forall>k < length toks - 1. \<not> break_cond (toks ! k) (ts ! k)"
       "length toks < length ts \<longrightarrow> toks \<noteq> [] \<and> break_cond (last toks) (ts ! (length toks - 1))"
    by blast
  have len: "length ts = N" by (simp add: ts_def)
  have nth: "\<And>k. k < N \<Longrightarrow> ts ! k = k * r" by (simp add: ts_def)
  have a: "length toks \<le> N" using t(1) len by simp
  have b: "length (mel_outputs st) = length toks" using t(2) st0 by simp
  have c: "stop_outputs st = concat (map (replicate r) toks)" using t(3) st0 by simp
  have d: "\<forall>k < length toks - 1. \<not> break_cond (toks ! k) (k * r)"
  proof (intro allI impI)
    fix k assume "k < length toks - 1"
    then have "k < N" "\<not> break_cond (toks ! k) (ts ! k)" using a t(4) by auto
    then show "\<not> break_cond (toks ! k) (k * r)" using nth by simp
  qed
  have e: "length toks < N \<longrightarrow> toks \<noteq> [] \<and> break_cond (last toks) ((length toks - 1) * r)"
  proof
    assume lt: "length toks < N"
    then have "toks \<noteq> []" "break_cond (last toks) (ts ! (length toks - 1))"
      using t(5) len by auto
    moreover have "ts ! (length toks - 1) = (length toks - 1) * r" using lt nth by simp
    ultimately show "toks \<noteq> [] \<and> break_cond (last toks) ((length toks - 1) * r)" by simp
  qed
  from rpos a b c d e show ?thesis unfolding N_def r_def by blast
qed

lemma generate_decode_threshold:
  "generate_decode (M\<lparr>stop_threshold := thr\<rparr>) x speaker_embedding steps
     = generate_decode M x speaker_embedding steps"
  by (simp add: generate_decode_def)

lemma break_34: "break_cond [[3 / 4]] t = (10 < t)"
  by (simp add: break_cond_def)

lemma M0_r5_steps: "decoder_steps (generate_decode (M0 5 (1 / 2)) [[1]] None 100) = Inr 4"
  by (simp add: decoder_steps_def generate_decode_def M0_def Let_def py_range_def zeros2_def
        D0_norm D0_sel D0_step0 D0_stepS last_frame_def frames0_def break_34 numeral_2_eq_2)

lemma M0_r5_stops: "stop_trace (generate_decode (M0 5 (1 / 2)) [[1]] None 100) = Inr (replicate 20 [[3 / 4]])"
  by (simp add: stop_trace_def generate_decode_def M0_def Let_def py_range_def zeros2_def
        D0_norm D0_sel D0_step0 D0_stepS last_frame_def frames0_def break_34 numeral_2_eq_2
        replicate_add[symmetric])

lemma M0_r1_steps: "decoder_steps (generate_decode (M0 1 (9 / 10)) [[1]] None 20) = Inr 12"
  by (simp add: decoder_steps_def generate_decode_def M0_def Let_def py_range_def zeros2_def
        D0_norm D0_sel D0_step0 D0_stepS last_frame_def frames0_def break_34 numeral_2_eq_2
        upt_conv_Cons)

lemma M0_r1_stops: "stop_trace (generate_decode (M0 1 (9 / 10)) [[1]] None 20) = Inr (replicate 12 [[3 / 4]])"
  by (simp add: stop_trace_def generate_decode_def M0_def Let_def py_range_def zeros2_def
        D0_norm D0_sel D0_step0 D0_stepS last_frame_def frames0_def break_34 numeral_2_eq_2
        upt_conv_Cons eval_nat_numeral)

lemma M0_r11_steps: "decoder_steps (generate_decode (M0 11 (1 / 2)) [[1]] None 110) = Inr 2"
  by (simp add: decoder_steps_def generate_decode_def M0_def Let_def py_range_def zeros2_def
        D0_norm D0_sel D0_step0 D0_stepS last_frame_def frames0_def break_34 numeral_2_eq_2)

lemma M0_r11_stops: "stop_trace (generate_decode (M0 11 (1 / 2)) [[1]] None 110) = Inr (replicate 22 [[3 / 4]])"
  by (simp add: stop_trace_def generate_decode_def M0_def Let_def py_range_def zeros2_def
        D0_norm D0_sel D0_step0 D0_stepS last_frame_def frames0_def break_34 numeral_2_eq_2
        replicate_add[symmetric])

text \<open>
  C2, as amended.  When the decoding of \<open>generate\<close> returns, it has made the decoder
  steps \<open>0, ..., n - 1\<close> with stop probabilities \<open>toks\<close> (each repeated \<open>r\<close> times in
  \<open>stop_outputs\<close>).  At no step before the last did the condition of the \<open>break\<close> hold:
  every stop probability above the constant \<open>0.5\<close> and the frame index \<open>t = k * r\<close> of
  the step above \<open>10\<close>.  If the loop was left before its range of \<open>(steps + r - 1) div r\<close>
  steps was exhausted, the condition held at the last step.  The configured
  \<open>stop_threshold\<close> has no influence on the run.
\<close>

theorem generate_stops_at_first_break:
  assumes "generate_decode M x speaker_embedding steps = Inr st"
  shows "generate_decode (M\<lparr>stop_threshold := thr\<rparr>) x speaker_embedding steps = Inr st
     \<and> (\<exists>toks. length toks = length (mel_outputs st)
         \<and> stop_outputs st = concat (map (replicate (cur_r (decoder M))) toks)
         \<and> (\<forall>k < length toks - 1. \<not> break_cond (toks ! k) (k * cur_r (decoder M)))
         \<and> (length toks < (nat steps + cur_r (decoder M) - 1) div cur_r (decoder M) \<longrightarrow>
               toks \<noteq> [] \<and> break_cond (last toks) ((length toks - 1) * cur_r (decoder M))))"
proof -
  have "generate_decode (M\<lparr>stop_threshold := thr\<rparr>) x speaker_embedding steps = Inr st"
    using assms by (simp only: generate_decode_threshold)
  then show ?thesis using generate_decode_trace[OF assms] by metis
qed

theorem generate_stops_at_first_break_witness:
  "\<exists>st. generate_decode (M0 1 (9 / 10)) [[1]] None 20 = Inr st
     \<and> generate_decode ((M0 1 (9 / 10))\<lparr>stop_threshold := 1 / 2\<rparr>) [[1]] None 20 = Inr st
     \<and> (\<exists>toks. length toks = length (mel_outputs st)
         \<and> stop_outputs st = concat (map (replicate (cur_r (decoder (M0 1 (9 / 10))))) toks)
         \<and> (\<forall>k < length toks - 1. \<not> break_cond (toks ! k) (k * cur_r (decoder (M0 1 (9 / 10)))))
         \<and> (length toks < (nat 20 + cur_r (decoder (M0 1 (9 / 10))) - 1) div cur_r (decoder (M0 1 (9 / 10))) \<longrightarrow>
               toks \<noteq> [] \<and> break_cond (last toks) ((length toks - 1) * cur_r (decoder (M0 1 (9 / 10))))))"
proof -
  from M0_r1_steps obtain st where run: "generate_decode (M0 1 (9 / 10)) [[1]] None 20 = Inr st"
    by (cases "generate_decode (M0 1 (9 / 10)) [[1]] None 20") (auto simp: decoder_steps_def)
  from generate_stops_at_first_break[OF run, of "1 / 2"] run show ?thesis by blast
qed

text \<open>
  C2, as stated, fails.  First run: \<open>r = 1\<close>, at most 20 steps, configured threshold
  \<open>9/10\<close>, every stop probability \<open>3/4\<close>; the loop is left after 12 steps although no stop
  probability exceeds the configured threshold.  Second run: \<open>r = 11\<close>, at most 10
  steps, threshold \<open>1/2\<close>; the loop is left after 2 decoder steps, which does not exceed
  the warm-up of 10 steps.
\<close>

theorem generate_early_exit_counterexample:
  "stop_threshold (M0 1 (9 / 10)) = 9 / 10
   \<and> decoder_steps (generate_decode (M0 1 (9 / 10)) [[1]] None 20) = Inr 12
   \<and> stop_trace (generate_decode (M0 1 (9 / 10)) [[1]] None 20) = Inr (replicate 12 [[3 / 4]])
   \<and> \<not> (3 / 4 > (9 / 10 :: real))
   \<and> decoder_steps (generate_decode (M0 11 (1 / 2)) [[1]] None 110) = Inr 2
   \<and> stop_trace (generate_decode (M0 11 (1 / 2)) [[1]] None 110) = Inr (replicate 22 [[3 / 4]])
   \<and> \<not> (2 > (10 :: nat))"
proof -
  have "stop_threshold (M0 1 (9 / 10)) = 9 / 10" by (simp add: M0_def)
  with M0_r1_steps M0_r1_stops M0_r11_steps M0_r11_stops show ?thesis by simp
qed

text \<open>
  C3, as amended.  When the decoding of \<open>generate\<close> returns, it has made at most
  \<open>(steps + r - 1) div r\<close> decoder steps, which is at most \<open>steps\<close>, and if it left the loop
  before that range was exhausted, the frame index \<open>t = (n - 1) * r\<close> of its last step
  \<open>n - 1\<close> exceeds \<open>10\<close>.
\<close>

theorem generate_steps_bounded:
  assumes "generate_decode M x speaker_embedding steps = Inr st"
  shows "length (mel_outputs st) \<le> (nat steps + cur_r (decoder M) - 1) div cur_r (decoder M)
     \<and> int (length (mel_outputs st)) \<le> max 0 steps
     \<and> (length (mel_outputs st) < (nat steps + cur_r (decoder M) - 1) div cur_r (decoder M)
          \<longrightarrow> 10 < (length (mel_outputs st) - 1) * cur_r (decoder M))"
proof -
  from generate_decode_trace[OF assms] obtain toks where
    r: "0 < cur_r (decoder M)"
    and t: "length toks \<le> (nat steps + cur_r (decoder M) - 1) div cur_r (decoder M)"
       "length (mel_outputs st) = length toks"
       "length toks < (nat steps + cur_r (decoder M) - 1) div cur_r (decoder M) \<longrightarrow>
           toks \<noteq> [] \<and> break_cond (last toks) ((length toks - 1) * cur_r (decoder M))"
    by blast
  have "length toks \<le> nat steps" using t(1) ceil_div_le[OF r, of "nat steps"] by simp
  then have "int (length (mel_outputs st)) \<le> max 0 steps" using t(2) by simp
  then show ?thesis using t by (auto simp: break_cond_def)
qed

theorem generate_steps_bounded_witness:
  "\<exists>st. generate_decode (M0 5 (1 / 2)) [[1]] None 100 = Inr st
     \<and> length (mel_outputs st) = 4
     \<and> length (mel_outputs st) \<le> (nat 100 + cur_r (decoder (M0 5 (1 / 2))) - 1) div cur_r (decoder (M0 5 (1 / 2)))
     \<and> int (length (mel_outputs st)) \<le> max 0 100
     \<and> (length (mel_outputs st) < (nat 100 + cur_r (decoder (M0 5 (1 / 2))) - 1) div cur_r (decoder (M0 5 (1 / 2)))
          \<longrightarrow> 10 < (length (mel_outputs st) - 1) * cur_r (decoder (M0 5 (1 / 2))))"
proof -
  from M0_r5_steps obtain st where run: "generate_decode (M0 5 (1 / 2)) [[1]] None 100 = Inr st"
    and n: "length (mel_outputs st) = 4"
    by (cases "generate_decode (M0 5 (1 / 2)) [[1]] None 100") (auto simp: decoder_steps_def)
  from generate_steps_bounded[OF run] run n show ?thesis by blast
qed

text \<open>
  C3, as stated, fails.  With \<open>r = 5\<close>, at most \<open>100\<close> frames (20 decoder steps) and every
  stop probability \<open>3/4 > 0.5\<close>, the loop is left at \<open>t = 15\<close>, after 4 decoder steps:
  before decoder step 10.
\<close>

theorem generate_exit_before_step_10:
  "decoder_steps (generate_decode (M0 5 (1 / 2)) [[1]] None 100) = Inr 4
   \<and> stop_trace (generate_decode (M0 5 (1 / 2)) [[1]] None 100) = Inr (replicate 20 [[3 / 4]])
   \<and> \<not> (10 \<le> (4 :: nat))"
  using M0_r5_steps M0_r5_stops by simp

end
